theory Spec2Isabelle
  imports Main
begin

section \<open>The cipher driver of mpags-cipher\<close>

text \<open>
  The development follows \<^verbatim>\<open>src/mpags-cipher.cpp\<close> from the construction of the
  ciphers (line 102) to the output of the processed text (line 192). The text read from
  the input stream and the settings filled in by the command-line parser are inputs of
  the model. The cipher classes and the cipher factory are not part of that file: the
  driver takes them as parameters (\<open>makeCipher\<close>, \<open>applyCipher\<close>).
\<close>

subsection \<open>Data\<close>

datatype CipherType = Caesar | Playfair | Vigenere

datatype CipherMode = Encrypt | Decrypt

record ProgramSettings =
  helpRequested :: bool
  versionRequested :: bool
  inputFile :: string
  outputFile :: string
  cipherType :: "CipherType list"
  cipherKey :: "string list"
  cipherMode :: CipherMode

text \<open>
  Exceptions that can travel through the driver. \<open>InvalidKey\<close> is the class declared in
  \<^verbatim>\<open>CipherType.hpp\<close>; \<open>OutOfRange\<close> is what \<^verbatim>\<open>std::string::substr\<close> throws when
  the start position lies beyond the end of the string. \<open>KeyIndexOutOfBounds\<close> and
  \<open>FrontOfEmpty\<close> mark the two places where the source reads a vector without a
  check (\<^verbatim>\<open>settings.cipherKey[iCipher]\<close> and \<^verbatim>\<open>ciphers.front()\<close>); C++ leaves
  them undefined, the model stops there.
\<close>

datatype exn = InvalidKey string | OutOfRange | KeyIndexOutOfBounds | FrontOfEmpty

text \<open>
  What a run leaves behind: the value returned from \<^verbatim>\<open>main\<close>, the lines written
  to the error stream, the text written to the output (standard output or the output
  file), and the calls of \<^verbatim>\<open>applyCipher\<close> that were made, each with the cipher
  object it was made on and the text it was given.
\<close>

record 'c outcome =
  exitCode :: int
  errorLines :: "string list"
  outputText :: "string option"
  applied :: "('c \<times> string) list"

subsection \<open>Construction of the ciphers (lines 102 to 123)\<close>

text \<open>
  \<open>makeCipher\<close> stands for \<^verbatim>\<open>CipherFactory::makeCipher\<close>: it throws (\<open>Inl\<close>),
  returns a null pointer (\<open>Inr None\<close>) or returns a cipher. The handler of the loop
  catches \<open>InvalidKey\<close> only. The loop runs over the indices \<open>0 ..< nCiphers\<close> and leaves
  \<^verbatim>\<open>main\<close> at the first failure, with the line it printed.
\<close>

datatype 'a attempt = Uncaught exn | ReturnOne string | Completed 'a

fun constructLoop ::
  "(CipherType \<Rightarrow> string \<Rightarrow> exn + 'c option) \<Rightarrow> CipherType list \<Rightarrow> string list
    \<Rightarrow> nat list \<Rightarrow> 'c list \<Rightarrow> 'c list attempt" where
  "constructLoop makeCipher types keys [] ciphers = Completed ciphers"
| "constructLoop makeCipher types keys (iCipher # rest) ciphers =
     (if length keys \<le> iCipher then Uncaught KeyIndexOutOfBounds
      else case makeCipher (types ! iCipher) (keys ! iCipher) of
             Inl (InvalidKey what) \<Rightarrow> ReturnOne (''[error] Invalid Key: '' @ what)
           | Inl e \<Rightarrow> Uncaught e
           | Inr None \<Rightarrow> ReturnOne ''[error] problem constructing requested cipher''
           | Inr (Some c) \<Rightarrow> constructLoop makeCipher types keys rest (ciphers @ [c]))"

definition constructCiphers ::
  "(CipherType \<Rightarrow> string \<Rightarrow> exn + 'c option) \<Rightarrow> ProgramSettings \<Rightarrow> 'c list attempt" where
  "constructCiphers makeCipher settings =
     constructLoop makeCipher (cipherType settings) (cipherKey settings)
       [0 ..< length (cipherType settings)] []"

subsection \<open>One stage of the pipeline (lines 132 to 173)\<close>

definition numThreads :: nat where
  "numThreads = 4"

text \<open>
  \<^verbatim>\<open>std::string::substr(pos, count)\<close>: throws when \<open>pos\<close> is beyond the size,
  otherwise returns at most \<open>count\<close> characters from \<open>pos\<close>.
\<close>

definition substr :: "string \<Rightarrow> nat \<Rightarrow> nat \<Rightarrow> exn + string" where
  "substr s pos count = (if length s < pos then Inl OutOfRange else Inr (take count (drop pos s)))"

text \<open>
  The bounds of chunk \<open>i\<close>. The source computes them in \<^verbatim>\<open>std::size_t\<close>; every
  product is at most \<open>numThreads * (size div numThreads) \<le> size\<close>, so nothing wraps and
  natural numbers are exact. The difference \<open>chunkEnd - chunkStart\<close> is taken where
  \<open>chunkStart \<le> chunkEnd\<close> (lemma \<open>chunk_bounds\<close> below).
\<close>

definition chunkSize :: "string \<Rightarrow> nat" where
  "chunkSize cipherText = length cipherText div numThreads"

definition chunkStart :: "string \<Rightarrow> nat \<Rightarrow> nat" where
  "chunkStart cipherText i = i * chunkSize cipherText"

definition chunkEnd :: "string \<Rightarrow> nat \<Rightarrow> nat" where
  "chunkEnd cipherText i =
     (if i = numThreads - 1 then length cipherText else (i + 1) * chunkSize cipherText)"

definition chunkOf :: "string \<Rightarrow> nat \<Rightarrow> exn + string" where
  "chunkOf cipherText i =
     substr cipherText (chunkStart cipherText i) (chunkEnd cipherText i - chunkStart cipherText i)"

text \<open>
  The four chunks written out, as the four calls of \<open>chunkOf\<close> return them (lemma
  \<open>chunkOf_all\<close>); a name for the statements below, not a function of the source.
\<close>

definition chunkList :: "string \<Rightarrow> string list" where
  "chunkList t =
     [take (chunkSize t) t, take (chunkSize t) (drop (chunkSize t) t),
      take (chunkSize t) (drop (2 * chunkSize t) t), drop (3 * chunkSize t) t]"

text \<open>
  The task given to \<^verbatim>\<open>std::async\<close> for chunk \<open>i\<close>: cut the chunk out of the text
  and apply the cipher at the front of the vector of ciphers to it. The result of the
  task is the value of its future: the transformed chunk, or the exception it threw,
  together with the call it made.
\<close>

definition chunkTask ::
  "('c \<Rightarrow> string \<Rightarrow> CipherMode \<Rightarrow> string) \<Rightarrow> 'c list \<Rightarrow> string \<Rightarrow> CipherMode \<Rightarrow> nat
    \<Rightarrow> exn + string \<times> ('c \<times> string) list" where
  "chunkTask applyCipher ciphers cipherText mode i =
     (case chunkOf cipherText i of
        Inl e \<Rightarrow> Inl e
      | Inr chunk \<Rightarrow>
          (case ciphers of
             [] \<Rightarrow> Inl FrontOfEmpty
           | front # _ \<Rightarrow> Inr (applyCipher front chunk mode, [(front, chunk)])))"

text \<open>
  The second loop over the futures (lines 165 to 169): the text is emptied and the value
  of each future is appended, in the order of the vector. \<^verbatim>\<open>future.get()\<close> rethrows
  the exception of its task.
\<close>

fun getFutures ::
  "(exn + string \<times> ('c \<times> string) list) list \<Rightarrow> string \<times> ('c \<times> string) list
    \<Rightarrow> exn + string \<times> ('c \<times> string) list" where
  "getFutures [] acc = Inr acc"
| "getFutures (future # rest) (cipherText, calls) =
     (case future of
        Inl e \<Rightarrow> Inl e
      | Inr (chunk, made) \<Rightarrow> getFutures rest (cipherText @ chunk, calls @ made))"

text \<open>
  The parallel branch: one task for each index \<open>0 ..< numThreads\<close>, then the values of
  the futures put together. A task here is a total function, so each future has a
  value; the wait of lines 157 to 163, which a task that does not complete would hold
  up, is modelled on its own below (\<open>parallelStageWaiting\<close>).
\<close>

definition parallelStage ::
  "('c \<Rightarrow> string \<Rightarrow> CipherMode \<Rightarrow> string) \<Rightarrow> 'c list \<Rightarrow> string \<Rightarrow> CipherMode
    \<Rightarrow> exn + string \<times> ('c \<times> string) list" where
  "parallelStage applyCipher ciphers cipherText mode =
     getFutures (map (chunkTask applyCipher ciphers cipherText mode) [0 ..< numThreads]) ([], [])"

text \<open>
  The body of the loop over the ciphers. The test looks for \<open>Caesar\<close> among the cipher
  types of the settings, and the parallel branch does not use the loop variable
  \<open>cipher\<close>.
\<close>

definition applyStage ::
  "('c \<Rightarrow> string \<Rightarrow> CipherMode \<Rightarrow> string) \<Rightarrow> ProgramSettings \<Rightarrow> 'c list \<Rightarrow> 'c \<Rightarrow> string
    \<Rightarrow> exn + string \<times> ('c \<times> string) list" where
  "applyStage applyCipher settings ciphers cipher cipherText =
     (if Caesar \<in> set (cipherType settings)
      then parallelStage applyCipher ciphers cipherText (cipherMode settings)
      else Inr (applyCipher cipher cipherText (cipherMode settings), [(cipher, cipherText)]))"

subsection \<open>The pipeline (lines 125 to 174)\<close>

fun runStages ::
  "('c \<Rightarrow> string \<Rightarrow> CipherMode \<Rightarrow> string) \<Rightarrow> ProgramSettings \<Rightarrow> 'c list \<Rightarrow> 'c list
    \<Rightarrow> string \<times> ('c \<times> string) list \<Rightarrow> exn + string \<times> ('c \<times> string) list" where
  "runStages applyCipher settings ciphers [] acc = Inr acc"
| "runStages applyCipher settings ciphers (cipher # rest) (cipherText, calls) =
     (case applyStage applyCipher settings ciphers cipher cipherText of
        Inl e \<Rightarrow> Inl e
      | Inr (cipherText', made) \<Rightarrow>
          runStages applyCipher settings ciphers rest (cipherText', calls @ made))"

definition orderCiphers :: "ProgramSettings \<Rightarrow> 'c list \<Rightarrow> 'c list" where
  "orderCiphers settings ciphers =
     (if cipherMode settings = Decrypt then rev ciphers else ciphers)"

definition runPipeline ::
  "('c \<Rightarrow> string \<Rightarrow> CipherMode \<Rightarrow> string) \<Rightarrow> ProgramSettings \<Rightarrow> 'c list \<Rightarrow> string
    \<Rightarrow> exn + string \<times> ('c \<times> string) list" where
  "runPipeline applyCipher settings ciphers cipherText =
     runStages applyCipher settings (orderCiphers settings ciphers)
       (orderCiphers settings ciphers) (cipherText, [])"

subsection \<open>The run from construction to output (lines 102 to 197)\<close>

text \<open>
  \<open>outputGood\<close> says whether the output file could be opened, when one was asked for.
  An exception that leaves the pipeline is not caught by \<^verbatim>\<open>main\<close>: the run ends
  in \<^verbatim>\<open>std::terminate\<close>, which is the \<open>Inl\<close> result.
\<close>

definition newline :: string where
  "newline = [CHR 0x0A]"

definition runCiphers ::
  "(CipherType \<Rightarrow> string \<Rightarrow> exn + 'c option) \<Rightarrow> ('c \<Rightarrow> string \<Rightarrow> CipherMode \<Rightarrow> string)
    \<Rightarrow> bool \<Rightarrow> ProgramSettings \<Rightarrow> string \<Rightarrow> exn + 'c outcome" where
  "runCiphers makeCipher applyCipher outputGood settings cipherText =
     (case constructCiphers makeCipher settings of
        Uncaught e \<Rightarrow> Inl e
      | ReturnOne line \<Rightarrow>
          Inr \<lparr>exitCode = 1, errorLines = [line], outputText = None, applied = []\<rparr>
      | Completed ciphers \<Rightarrow>
          (case runPipeline applyCipher settings ciphers cipherText of
             Inl e \<Rightarrow> Inl e
           | Inr (cipherText', calls) \<Rightarrow>
               (if outputFile settings \<noteq> [] \<and> \<not> outputGood
                then Inr \<lparr>exitCode = 1,
                          errorLines = [''[error] failed to create ostream on file '' @ [CHR 0x27]
                                          @ outputFile settings @ [CHR 0x27]],
                          outputText = None, applied = calls\<rparr>
                else Inr \<lparr>exitCode = 0, errorLines = [],
                          outputText = Some (cipherText' @ newline), applied = calls\<rparr>)))"

subsection \<open>Waiting for the futures (lines 157 to 163)\<close>

text \<open>
  \<^verbatim>\<open>future.wait_for\<close> returns a status each time it is called. For one future,
  \<open>wait_for n\<close> is the status its call number \<open>n\<close> returns: call 0 is the one with the
  timeout of one second, the later ones are the calls of the inner loop, two seconds
  each. \<open>awaitReady\<close> is that inner loop together with the first call; it returns the
  number of calls it made, and \<open>None\<close> is the loop that does not end.
\<close>

datatype future_status = Ready | Timeout | Deferred

partial_function (option) awaitReady :: "(nat \<Rightarrow> future_status) \<Rightarrow> nat \<Rightarrow> nat option" where
  "awaitReady wait_for n =
     (if wait_for n \<noteq> Ready then awaitReady wait_for (Suc n) else Some (Suc n))"

text \<open>The outer loop over the futures, in the order of the vector; the calls are counted.\<close>

fun waitFutures :: "(nat \<Rightarrow> future_status) list \<Rightarrow> nat option" where
  "waitFutures [] = Some 0"
| "waitFutures (future # rest) =
     (case awaitReady future 0 of
        None \<Rightarrow> None
      | Some n \<Rightarrow> (case waitFutures rest of None \<Rightarrow> None | Some m \<Rightarrow> Some (n + m)))"

text \<open>
  The parallel branch with its wait: \<open>wait_for i\<close> is the sequence of statuses of the
  future of chunk \<open>i\<close>. The text is rebuilt only after the wait has returned.
\<close>

definition parallelStageWaiting ::
  "(nat \<Rightarrow> nat \<Rightarrow> future_status) \<Rightarrow> ('c \<Rightarrow> string \<Rightarrow> CipherMode \<Rightarrow> string) \<Rightarrow> 'c list
    \<Rightarrow> string \<Rightarrow> CipherMode \<Rightarrow> (exn + string \<times> ('c \<times> string) list) option" where
  "parallelStageWaiting wait_for applyCipher ciphers cipherText mode =
     (case waitFutures (map wait_for [0 ..< numThreads]) of
        None \<Rightarrow> None
      | Some _ \<Rightarrow> Some (parallelStage applyCipher ciphers cipherText mode))"

subsection \<open>The order in which the tasks complete\<close>

text \<open>
  Each future has a shared state that its task fills when it completes. \<open>completed\<close> is
  the order in which the tasks complete; the states are a map from the index of the
  future to the result of its task. \<open>parallelStageCompleting\<close> reads the states as the
  second loop does, in the order of the vector; a \<^verbatim>\<open>get\<close> on a future whose task
  never completes does not return (\<open>None\<close>).
\<close>

fun completeTasks :: "(nat \<Rightarrow> 'r) \<Rightarrow> nat list \<Rightarrow> (nat \<rightharpoonup> 'r) \<Rightarrow> (nat \<rightharpoonup> 'r)" where
  "completeTasks task [] shared = shared"
| "completeTasks task (i # completed) shared = completeTasks task completed (shared(i \<mapsto> task i))"

definition parallelStageCompleting ::
  "nat list \<Rightarrow> ('c \<Rightarrow> string \<Rightarrow> CipherMode \<Rightarrow> string) \<Rightarrow> 'c list \<Rightarrow> string \<Rightarrow> CipherMode
    \<Rightarrow> (exn + string \<times> ('c \<times> string) list) option" where
  "parallelStageCompleting completed applyCipher ciphers cipherText mode =
     (case those (map (completeTasks (chunkTask applyCipher ciphers cipherText mode)
                        completed Map.empty) [0 ..< numThreads]) of
        None \<Rightarrow> None
      | Some futures \<Rightarrow> Some (getFutures futures ([], [])))"

subsection \<open>The same lines with a transform that can throw\<close>

text \<open>
  The definitions above take \<^verbatim>\<open>applyCipher\<close> as a function that returns. Nothing in
  \<^verbatim>\<open>main\<close> catches what it throws: an exception thrown inside a chunk task is kept
  in the future and thrown again by \<^verbatim>\<open>future.get()\<close>, one thrown in the direct
  branch leaves the loop, and either way it leaves \<^verbatim>\<open>main\<close>. The definitions of
  this subsection are lines 131 to 197 once more, with a transform that returns a text
  or throws. Construction, chunk bounds and the loop over the futures are the ones
  above.
\<close>

definition chunkTaskThrowing ::
  "('c \<Rightarrow> string \<Rightarrow> CipherMode \<Rightarrow> exn + string) \<Rightarrow> 'c list \<Rightarrow> string \<Rightarrow> CipherMode \<Rightarrow> nat
    \<Rightarrow> exn + string \<times> ('c \<times> string) list" where
  "chunkTaskThrowing applyCipher ciphers cipherText mode i =
     (case chunkOf cipherText i of
        Inl e \<Rightarrow> Inl e
      | Inr chunk \<Rightarrow>
          (case ciphers of
             [] \<Rightarrow> Inl FrontOfEmpty
           | front # _ \<Rightarrow>
               (case applyCipher front chunk mode of
                  Inl e \<Rightarrow> Inl e
                | Inr transformed \<Rightarrow> Inr (transformed, [(front, chunk)]))))"

definition parallelStageThrowing ::
  "('c \<Rightarrow> string \<Rightarrow> CipherMode \<Rightarrow> exn + string) \<Rightarrow> 'c list \<Rightarrow> string \<Rightarrow> CipherMode
    \<Rightarrow> exn + string \<times> ('c \<times> string) list" where
  "parallelStageThrowing applyCipher ciphers cipherText mode =
     getFutures (map (chunkTaskThrowing applyCipher ciphers cipherText mode) [0 ..< numThreads])
       ([], [])"

definition applyStageThrowing ::
  "('c \<Rightarrow> string \<Rightarrow> CipherMode \<Rightarrow> exn + string) \<Rightarrow> ProgramSettings \<Rightarrow> 'c list \<Rightarrow> 'c
    \<Rightarrow> string \<Rightarrow> exn + string \<times> ('c \<times> string) list" where
  "applyStageThrowing applyCipher settings ciphers cipher cipherText =
     (if Caesar \<in> set (cipherType settings)
      then parallelStageThrowing applyCipher ciphers cipherText (cipherMode settings)
      else (case applyCipher cipher cipherText (cipherMode settings) of
              Inl e \<Rightarrow> Inl e
            | Inr transformed \<Rightarrow> Inr (transformed, [(cipher, cipherText)])))"

fun runStagesThrowing ::
  "('c \<Rightarrow> string \<Rightarrow> CipherMode \<Rightarrow> exn + string) \<Rightarrow> ProgramSettings \<Rightarrow> 'c list \<Rightarrow> 'c list
    \<Rightarrow> string \<times> ('c \<times> string) list \<Rightarrow> exn + string \<times> ('c \<times> string) list" where
  "runStagesThrowing applyCipher settings ciphers [] acc = Inr acc"
| "runStagesThrowing applyCipher settings ciphers (cipher # rest) (cipherText, calls) =
     (case applyStageThrowing applyCipher settings ciphers cipher cipherText of
        Inl e \<Rightarrow> Inl e
      | Inr (cipherText', made) \<Rightarrow>
          runStagesThrowing applyCipher settings ciphers rest (cipherText', calls @ made))"

definition runPipelineThrowing ::
  "('c \<Rightarrow> string \<Rightarrow> CipherMode \<Rightarrow> exn + string) \<Rightarrow> ProgramSettings \<Rightarrow> 'c list \<Rightarrow> string
    \<Rightarrow> exn + string \<times> ('c \<times> string) list" where
  "runPipelineThrowing applyCipher settings ciphers cipherText =
     runStagesThrowing applyCipher settings (orderCiphers settings ciphers)
       (orderCiphers settings ciphers) (cipherText, [])"

definition runCiphersThrowing ::
  "(CipherType \<Rightarrow> string \<Rightarrow> exn + 'c option)
    \<Rightarrow> ('c \<Rightarrow> string \<Rightarrow> CipherMode \<Rightarrow> exn + string)
    \<Rightarrow> bool \<Rightarrow> ProgramSettings \<Rightarrow> string \<Rightarrow> exn + 'c outcome" where
  "runCiphersThrowing makeCipher applyCipher outputGood settings cipherText =
     (case constructCiphers makeCipher settings of
        Uncaught e \<Rightarrow> Inl e
      | ReturnOne line \<Rightarrow>
          Inr \<lparr>exitCode = 1, errorLines = [line], outputText = None, applied = []\<rparr>
      | Completed ciphers \<Rightarrow>
          (case runPipelineThrowing applyCipher settings ciphers cipherText of
             Inl e \<Rightarrow> Inl e
           | Inr (cipherText', calls) \<Rightarrow>
               (if outputFile settings \<noteq> [] \<and> \<not> outputGood
                then Inr \<lparr>exitCode = 1,
                          errorLines = [''[error] failed to create ostream on file '' @ [CHR 0x27]
                                          @ outputFile settings @ [CHR 0x27]],
                          outputText = None, applied = calls\<rparr>
                else Inr \<lparr>exitCode = 0, errorLines = [],
                          outputText = Some (cipherText' @ newline), applied = calls\<rparr>)))"

section \<open>The ciphers and their factory\<close>

text \<open>
  Modelled from the spec: the cipher classes \<^verbatim>\<open>CaesarCipher\<close>,
  \<^verbatim>\<open>PlayfairCipher\<close> and \<^verbatim>\<open>VigenereCipher\<close> and the factory
  \<^verbatim>\<open>CipherFactory\<close>, which the driver includes and which are missing from the
  sources. The definitions of this section follow sections 3, 4.2 to 4.4 and 7 of the
  specification. A cipher is its validated key material: a shift, a grid or a key word.
  The alphabet is the 26 capital letters; a character outside it passes through a shift
  unchanged.
\<close>

datatype Cipher = CaesarCipher nat | PlayfairCipher string | VigenereCipher string

definition alphabetSize :: nat where
  "alphabetSize = 26"

definition isLetter :: "char \<Rightarrow> bool" where
  "isLetter c = (65 \<le> (of_char c :: nat) \<and> (of_char c :: nat) \<le> 90)"

definition position :: "char \<Rightarrow> nat" where
  "position c = of_char c - 65"

definition letterAt :: "nat \<Rightarrow> char" where
  "letterAt p = char_of (65 + p)"

text \<open>
  Modelled from the spec: the Caesar transform of section 4.2, which is missing from the
  sources. A letter at position \<open>p\<close> goes to \<open>(p + k) mod A\<close> when encrypting and to
  \<open>(p - k + A) mod A\<close> when decrypting; the sum is taken before the difference so that
  it stays a natural number for a shift in range.
\<close>

definition shiftLetter :: "CipherMode \<Rightarrow> nat \<Rightarrow> char \<Rightarrow> char" where
  "shiftLetter mode k c =
     (if isLetter c
      then (case mode of
              Encrypt \<Rightarrow> letterAt ((position c + k) mod alphabetSize)
            | Decrypt \<Rightarrow> letterAt ((position c + alphabetSize - k) mod alphabetSize))
      else c)"

definition caesarApply :: "nat \<Rightarrow> string \<Rightarrow> CipherMode \<Rightarrow> string" where
  "caesarApply k inputText mode = map (shiftLetter mode k) inputText"

text \<open>
  Modelled from the spec: the Vigenere transform of section 4.3, which is missing from
  the sources. Character \<open>i\<close> of the text is shifted by the position of the key letter
  \<open>i mod keyLength\<close>. A cipher with an empty key cannot be constructed; the transform
  leaves the text as it is there.
\<close>

fun vigenereFrom :: "string \<Rightarrow> CipherMode \<Rightarrow> nat \<Rightarrow> string \<Rightarrow> string" where
  "vigenereFrom key mode i [] = []"
| "vigenereFrom key mode i (c # rest) =
     shiftLetter mode (position (key ! (i mod length key))) c
       # vigenereFrom key mode (Suc i) rest"

definition vigenereApply :: "string \<Rightarrow> string \<Rightarrow> CipherMode \<Rightarrow> string" where
  "vigenereApply key inputText mode =
     (if key = [] then inputText else vigenereFrom key mode 0 inputText)"

text \<open>
  Modelled from the spec: the Playfair grid of sections 3 and 4.4, which is missing from
  the sources. The letters of the key, with J merged into I, are followed by the
  alphabet without J; of each letter the first occurrence is kept. The merge comes
  before the removal of duplicates, so that the cells are distinct for every key. The
  grid is the list of its 25 cells, row after row.
\<close>

definition mergeJ :: "char \<Rightarrow> char" where
  "mergeJ c = (if c = CHR ''J'' then CHR ''I'' else c)"

definition gridAlphabet :: string where
  "gridAlphabet = ''ABCDEFGHIKLMNOPQRSTUVWXYZ''"

definition dedup :: "'a list \<Rightarrow> 'a list" where
  "dedup xs = rev (remdups (rev xs))"

definition makeGrid :: "string \<Rightarrow> string" where
  "makeGrid key = dedup (map mergeJ (filter isLetter key) @ gridAlphabet)"

text \<open>
  Modelled from the spec: the preprocessing of section 4.4. A filler is inserted between
  the two letters of a pair that are identical (X, or Q after an X), and a text of odd
  length after that pass gets a filler at its end. A J of the text is read as I, the
  letter it is merged into in the grid.
\<close>

definition filler :: "char \<Rightarrow> char" where
  "filler c = (if c = CHR ''X'' then CHR ''Q'' else CHR ''X'')"

fun insertFillers :: "string \<Rightarrow> string" where
  "insertFillers (a # b # rest) =
     (if a = b then a # filler a # insertFillers (b # rest) else a # b # insertFillers rest)"
| "insertFillers s = s"

definition padOdd :: "string \<Rightarrow> string" where
  "padOdd s = (if odd (length s) then s @ [filler (last s)] else s)"

definition prepare :: "string \<Rightarrow> string" where
  "prepare inputText = padOdd (insertFillers (map mergeJ inputText))"

text \<open>
  Modelled from the spec: the Playfair transform of a digraph (section 4.4). The cell of
  a letter is its index in the grid, row \<open>index div 5\<close> and column \<open>index mod 5\<close>. One
  step to the left or up is four steps to the right or down, modulo 5. \<open>shiftCells\<close>
  is the rule on the two cells, \<open>playfairPair\<close> looks the letters up. A pair with a
  character that is not in the grid is left as it is.
\<close>

fun indexOf :: "'a \<Rightarrow> 'a list \<Rightarrow> nat" where
  "indexOf x [] = 0"
| "indexOf x (y # ys) = (if x = y then 0 else Suc (indexOf x ys))"

definition shiftCells :: "CipherMode \<Rightarrow> nat \<Rightarrow> nat \<Rightarrow> nat \<times> nat" where
  "shiftCells mode i j =
     (let ra = i div 5; ca = i mod 5; rb = j div 5; cb = j mod 5;
          step = (case mode of Encrypt \<Rightarrow> 1 | Decrypt \<Rightarrow> 4)
      in if ra = rb then (5 * ra + (ca + step) mod 5, 5 * rb + (cb + step) mod 5)
         else if ca = cb then (5 * ((ra + step) mod 5) + ca, 5 * ((rb + step) mod 5) + cb)
         else (5 * ra + cb, 5 * rb + ca))"

definition playfairPair :: "string \<Rightarrow> CipherMode \<Rightarrow> char \<Rightarrow> char \<Rightarrow> string" where
  "playfairPair grid mode a b =
     (if a \<in> set grid \<and> b \<in> set grid
      then (case shiftCells mode (indexOf a grid) (indexOf b grid) of
              (i, j) \<Rightarrow> [grid ! i, grid ! j])
      else [a, b])"

fun playfairDigraphs :: "string \<Rightarrow> CipherMode \<Rightarrow> string \<Rightarrow> string" where
  "playfairDigraphs grid mode (a # b # rest) =
     playfairPair grid mode a b @ playfairDigraphs grid mode rest"
| "playfairDigraphs grid mode s = s"

definition playfairApply :: "string \<Rightarrow> string \<Rightarrow> CipherMode \<Rightarrow> string" where
  "playfairApply grid inputText mode = playfairDigraphs grid mode (prepare inputText)"

text \<open>
  Modelled from the spec: the single operation of a cipher (section 2), missing from the
  sources with the cipher classes.
\<close>

fun Cipher_applyCipher :: "Cipher \<Rightarrow> string \<Rightarrow> CipherMode \<Rightarrow> string" where
  "Cipher_applyCipher (CaesarCipher k) inputText mode = caesarApply k inputText mode"
| "Cipher_applyCipher (PlayfairCipher grid) inputText mode = playfairApply grid inputText mode"
| "Cipher_applyCipher (VigenereCipher key) inputText mode = vigenereApply key inputText mode"

text \<open>
  Modelled from the spec: the cipher factory (sections 2, 3 and 7), missing from the
  sources. A Caesar key is a decimal number or a single letter and must give a shift
  below the size of the alphabet; a Vigenere key is a non-empty string of letters; every
  Playfair key gives a grid. The texts of the messages are not given by the
  specification.
\<close>

definition isDigit :: "char \<Rightarrow> bool" where
  "isDigit c = (48 \<le> (of_char c :: nat) \<and> (of_char c :: nat) \<le> 57)"

definition digitValue :: "char \<Rightarrow> nat" where
  "digitValue c = of_char c - 48"

definition keyToShift :: "string \<Rightarrow> nat option" where
  "keyToShift key =
     (if key \<noteq> [] \<and> list_all isDigit key
      then Some (foldl (\<lambda>n c. 10 * n + digitValue c) 0 key)
      else if length key = 1 \<and> isLetter (hd key) then Some (position (hd key))
      else None)"

fun CipherFactory_makeCipher :: "CipherType \<Rightarrow> string \<Rightarrow> exn + Cipher option" where
  "CipherFactory_makeCipher Caesar key =
     (case keyToShift key of
        None \<Rightarrow> Inl (InvalidKey ''Caesar cipher key is not a shift'')
      | Some k \<Rightarrow>
          if k < alphabetSize then Inr (Some (CaesarCipher k))
          else Inl (InvalidKey ''Caesar cipher shift is out of range''))"
| "CipherFactory_makeCipher Playfair key = Inr (Some (PlayfairCipher (makeGrid key)))"
| "CipherFactory_makeCipher Vigenere key =
     (if key \<noteq> [] \<and> list_all isLetter key then Inr (Some (VigenereCipher key))
      else Inl (InvalidKey ''Vigenere cipher key must be a non-empty string of letters''))"

text \<open>The settings of a run: the ciphers with their keys and the mode, nothing else set.\<close>

definition settingsFor :: "CipherType list \<Rightarrow> string list \<Rightarrow> CipherMode \<Rightarrow> ProgramSettings" where
  "settingsFor types keys mode =
     \<lparr>helpRequested = False, versionRequested = False, inputFile = [], outputFile = [],
      cipherType = types, cipherKey = keys, cipherMode = mode\<rparr>"

text \<open>
  Two predicates for the statements about Playfair: a grid as section 3 of the
  specification wants it (25 distinct cells, no J), and a text that splits into pairs
  of two different letters.
\<close>

definition validGrid :: "string \<Rightarrow> bool" where
  "validGrid grid = (distinct grid \<and> length grid = 25 \<and> CHR ''J'' \<notin> set grid)"

fun distinctPairs :: "string \<Rightarrow> bool" where
  "distinctPairs (a # b # rest) = (a \<noteq> b \<and> distinctPairs rest)"
| "distinctPairs [] = True"
| "distinctPairs [a] = False"

text \<open>
  Modelled from the spec: the keys that give a valid cipher state (section 3), for the
  factory that is missing from the sources. A Caesar key must resolve to a shift below
  the size of the alphabet, a Vigenere key is a non-empty string of letters, every
  Playfair key is valid.
\<close>

definition validKey :: "CipherType \<Rightarrow> string \<Rightarrow> bool" where
  "validKey kind key =
     (case kind of
        Caesar \<Rightarrow> (case keyToShift key of None \<Rightarrow> False | Some k \<Rightarrow> k < alphabetSize)
      | Playfair \<Rightarrow> True
      | Vigenere \<Rightarrow> key \<noteq> [] \<and> list_all isLetter key)"

text \<open>
  Modelled from the spec: the valid states of sections 4.2 to 4.4, for the cipher classes
  that are missing from the sources: a shift in range, a key of at least one letter and
  letters only, a grid of 25 distinct letters.
\<close>

fun validState :: "Cipher \<Rightarrow> bool" where
  "validState (CaesarCipher k) = (k < alphabetSize)"
| "validState (PlayfairCipher grid) = validGrid grid"
| "validState (VigenereCipher key) = (key \<noteq> [] \<and> list_all isLetter key)"

text \<open>
  Modelled from the spec: the transform as an operation that can fail. Sections 4.2 to 4.4
  give the transforms on a valid state, and section 7 names \<open>InvalidKey\<close> as the error of
  a key that gives none. The checked transform raises it on a state that is not valid,
  which is the failure in mid-transform that sections 3 and 7 rule out, and is the
  transform of sections 4.2 to 4.4 otherwise.
\<close>

definition Cipher_applyCipher_checked :: "Cipher \<Rightarrow> string \<Rightarrow> CipherMode \<Rightarrow> exn + string" where
  "Cipher_applyCipher_checked cipher inputText mode =
     (if validState cipher then Inr (Cipher_applyCipher cipher inputText mode)
      else Inl (InvalidKey ''cipher state is not valid''))"

section \<open>The partition into chunks\<close>

lemma chunkSize_bound: "numThreads * chunkSize cipherText \<le> length cipherText"
  by (simp add: chunkSize_def numThreads_def)

lemma chunk_bounds:
  assumes "i < numThreads"
  shows "chunkStart cipherText i \<le> chunkEnd cipherText i"
    and "chunkEnd cipherText i \<le> length cipherText"
proof -
  have b: "4 * (length cipherText div 4) \<le> length cipherText" by simp
  from assms have "i = 0 \<or> i = 1 \<or> i = 2 \<or> i = 3"
    by (auto simp: numThreads_def)
  then show "chunkStart cipherText i \<le> chunkEnd cipherText i"
    using b by (auto simp: chunkStart_def chunkEnd_def chunkSize_def numThreads_def)
  from \<open>i = 0 \<or> i = 1 \<or> i = 2 \<or> i = 3\<close> show "chunkEnd cipherText i \<le> length cipherText"
    using b by (auto simp: chunkEnd_def chunkSize_def numThreads_def)
qed

lemma chunkOf_Inr:
  assumes "i < numThreads"
  shows "chunkOf cipherText i =
           Inr (take (chunkEnd cipherText i - chunkStart cipherText i)
                  (drop (chunkStart cipherText i) cipherText))"
  using chunk_bounds [OF assms, of cipherText]
  by (simp add: chunkOf_def substr_def)

lemma upt_numThreads: "[0 ..< numThreads] = [0, 1, 2, 3]"
  by (simp add: numThreads_def upt_rec)

lemma chunkOf_leading:
  assumes "i < numThreads - 1"
  shows "chunkOf t i = Inr (take (chunkSize t) (drop (i * chunkSize t) t))"
proof -
  have "i \<le> numThreads"
    using assms by simp
  then have "i * chunkSize t \<le> numThreads * chunkSize t"
    by (rule mult_le_mono1)
  then have "i * chunkSize t \<le> length t"
    using chunkSize_bound [of t] by (rule order_trans)
  then show ?thesis
    using assms by (simp add: chunkOf_def substr_def chunkStart_def chunkEnd_def)
qed

lemma chunkOf_last:
  "chunkOf t (numThreads - 1) = Inr (drop ((numThreads - 1) * chunkSize t) t)"
proof -
  have "numThreads - 1 \<le> numThreads"
    by simp
  then have "(numThreads - 1) * chunkSize t \<le> numThreads * chunkSize t"
    by (rule mult_le_mono1)
  then have "(numThreads - 1) * chunkSize t \<le> length t"
    using chunkSize_bound [of t] by (rule order_trans)
  then show ?thesis
    by (simp add: chunkOf_def substr_def chunkStart_def chunkEnd_def)
qed

lemma chunkOf_all:
  "map (chunkOf t) [0 ..< numThreads] = map Inr (chunkList t)"
proof -
  have "chunkOf t 0 = Inr (take (chunkSize t) t)"
    using chunkOf_leading [of 0 t] by (simp add: numThreads_def)
  moreover have "chunkOf t 1 = Inr (take (chunkSize t) (drop (chunkSize t) t))"
    using chunkOf_leading [of 1 t] by (simp add: numThreads_def)
  moreover have "chunkOf t 2 = Inr (take (chunkSize t) (drop (2 * chunkSize t) t))"
    using chunkOf_leading [of 2 t] by (simp add: numThreads_def)
  moreover have "chunkOf t 3 = Inr (drop (3 * chunkSize t) t)"
    using chunkOf_last [of t] by (simp add: numThreads_def)
  ultimately show ?thesis
    by (simp add: upt_numThreads chunkList_def)
qed

lemma take_take_drop: "take n xs @ take m (drop n xs) = take (n + m) xs"
  by (simp add: take_add)

lemma concat_chunkList: "concat (chunkList t) = t"
proof -
  define n where "n = chunkSize t"
  have a: "take n t @ take n (drop n t) = take (2 * n) t"
    using take_take_drop [of n t n] by (simp add: mult_2)
  have b: "take (2 * n) t @ take n (drop (2 * n) t) = take (3 * n) t"
    using take_take_drop [of "2 * n" t n] by simp
  have "take n t @ take n (drop n t) @ take n (drop (2 * n) t) @ drop (3 * n) t
        = ((take n t @ take n (drop n t)) @ take n (drop (2 * n) t)) @ drop (3 * n) t"
    by simp
  also have "\<dots> = t"
    by (simp only: a b append_take_drop_id)
  finally show ?thesis by (simp add: chunkList_def n_def)
qed

lemma length_chunkList:
  "map length (chunkList t) = [chunkSize t, chunkSize t, chunkSize t, length t - 3 * chunkSize t]"
  using chunkSize_bound [of t] by (simp add: chunkList_def numThreads_def)

text \<open>
  Claim C8. The four calls of \<open>substr\<close> succeed and return four pieces of the text that,
  put together in index order, give the text back: the pieces are contiguous (each ends
  where the next starts, the first starts at 0, the last ends at the size), their lengths
  sum to the length of the text, the first \<open>numThreads - 1\<close> have
  \<open>length div numThreads\<close> characters and the last has the remainder in addition.
\<close>

theorem chunks_partition:
  "\<exists>chunks.
     map (chunkOf cipherText) [0 ..< numThreads] = map Inr chunks \<and>
     length chunks = numThreads \<and>
     concat chunks = cipherText \<and>
     sum_list (map length chunks) = length cipherText \<and>
     (\<forall>i < numThreads - 1. length (chunks ! i) = length cipherText div numThreads) \<and>
     length (chunks ! (numThreads - 1)) =
       length cipherText div numThreads + length cipherText mod numThreads \<and>
     chunkStart cipherText 0 = 0 \<and>
     (\<forall>i < numThreads - 1. chunkEnd cipherText i = chunkStart cipherText (i + 1)) \<and>
     chunkEnd cipherText (numThreads - 1) = length cipherText"
proof -
  let ?chunks = "chunkList cipherText"
  have l: "map length ?chunks = [chunkSize cipherText, chunkSize cipherText, chunkSize cipherText, length cipherText - 3 * chunkSize cipherText]"
    by (rule length_chunkList)
  have 1: "map (chunkOf cipherText) [0 ..< numThreads] = map Inr ?chunks"
    by (rule chunkOf_all)
  have 2: "length ?chunks = numThreads"
    by (simp add: chunkList_def numThreads_def)
  have 3: "concat ?chunks = cipherText"
    by (rule concat_chunkList)
  have 4: "sum_list (map length ?chunks) = length cipherText"
    using chunkSize_bound [of cipherText] by (simp add: l numThreads_def)
  have 5: "\<forall>i < numThreads - 1. length (?chunks ! i) = length cipherText div numThreads"
  proof (intro allI impI)
    fix i assume "i < numThreads - 1"
    then have "i = 0 \<or> i = 1 \<or> i = 2" by (auto simp: numThreads_def)
    moreover have "length (?chunks ! i) = map length ?chunks ! i" using 2 \<open>i < numThreads - 1\<close> by simp
    ultimately show "length (?chunks ! i) = length cipherText div numThreads"
      unfolding l by (auto simp: chunkSize_def)
  qed
  have "length (?chunks ! 3) = length cipherText - 3 * chunkSize cipherText"
    using chunkSize_bound [of cipherText] by (simp add: chunkList_def numThreads_def)
  moreover have "m - 3 * (m div 4) = m div 4 + m mod 4" for m :: nat
    using mult_div_mod_eq [of 4 m] by linarith
  ultimately have 6: "length (?chunks ! (numThreads - 1)) =
       length cipherText div numThreads + length cipherText mod numThreads"
    by (simp add: numThreads_def chunkSize_def)
  have 7: "chunkStart cipherText 0 = 0" by (simp add: chunkStart_def)
  have 8: "\<forall>i < numThreads - 1. chunkEnd cipherText i = chunkStart cipherText (i + 1)"
    by (simp add: chunkEnd_def chunkStart_def)
  have 9: "chunkEnd cipherText (numThreads - 1) = length cipherText"
    by (simp add: chunkEnd_def)
  from 1 2 3 4 5 6 7 8 9 show ?thesis by blast
qed


theorem chunks_partition_witness:
  "\<exists>chunks.
     map (chunkOf ''ABCDEFGHIJ'') [0 ..< numThreads] = map Inr chunks \<and>
     chunks = [''AB'', ''CD'', ''EF'', ''GHIJ''] \<and>
     concat chunks = ''ABCDEFGHIJ'' \<and>
     sum_list (map length chunks) = 10 \<and>
     length (chunks ! 0) = 2 \<and> length (chunks ! 1) = 2 \<and> length (chunks ! 2) = 2 \<and>
     length (chunks ! 3) = 2 + 2"
proof -
  from chunks_partition [of "''ABCDEFGHIJ''"] obtain chunks where
    m: "map (chunkOf ''ABCDEFGHIJ'') [0 ..< numThreads] = map Inr chunks"
    and c: "concat chunks = ''ABCDEFGHIJ''"
    and s: "sum_list (map length chunks) = length ''ABCDEFGHIJ''"
    by blast
  have "map (chunkOf ''ABCDEFGHIJ'') [0 ..< numThreads]
          = map Inr [''AB'', ''CD'', ''EF'', ''GHIJ'']"
    unfolding upt_numThreads
    by (simp add: chunkOf_def substr_def chunkStart_def chunkEnd_def chunkSize_def numThreads_def)
  with m have "map Inr chunks = (map Inr [''AB'', ''CD'', ''EF'', ''GHIJ''] :: (exn + string) list)"
    by simp
  then have e: "chunks = [''AB'', ''CD'', ''EF'', ''GHIJ'']"
    by (auto simp: map_eq_Cons_conv)
  show ?thesis
    using m c s e by simp
qed

lemma chunkOf_nth:
  assumes "i < numThreads"
  shows "chunkOf t i = Inr (chunkList t ! i)"
proof -
  have "map (chunkOf t) [0 ..< numThreads] ! i = map Inr (chunkList t) ! i"
    by (simp only: chunkOf_all)
  moreover have "length (chunkList t) = numThreads"
    by (simp add: chunkList_def numThreads_def)
  ultimately show ?thesis
    using assms by simp
qed

lemma getFutures_Inr:
  "getFutures (map Inr rs) (cipherText, calls) =
     Inr (cipherText @ concat (map fst rs), calls @ concat (map snd rs))"
  by (induction rs arbitrary: cipherText calls) auto

lemma chunkTask_front:
  assumes "i < numThreads"
  shows "chunkTask applyCipher (front # rest) t mode i =
           Inr (applyCipher front (chunkList t ! i) mode, [(front, chunkList t ! i)])"
  by (simp add: chunkTask_def chunkOf_nth [OF assms])

lemma chunkTask_empty:
  assumes "i < numThreads"
  shows "chunkTask applyCipher [] t mode i = Inl FrontOfEmpty"
  by (simp add: chunkTask_def chunkOf_nth [OF assms])

lemma parallelStage_front:
  "parallelStage applyCipher (front # rest) t mode =
     Inr (concat (map (\<lambda>chunk. applyCipher front chunk mode) (chunkList t)),
          map (\<lambda>chunk. (front, chunk)) (chunkList t))"
proof -
  have h: "map (chunkTask applyCipher (front # rest) t mode) [0 ..< numThreads] =
          map Inr (map (\<lambda>chunk. (applyCipher front chunk mode, [(front, chunk)])) (chunkList t))"
    unfolding upt_numThreads
    by (simp add: chunkTask_front numThreads_def chunkList_def)
  show ?thesis
    unfolding parallelStage_def h getFutures_Inr by (simp add: comp_def)
qed

lemma parallelStage_empty:
  "parallelStage applyCipher [] t mode = Inl FrontOfEmpty"
  unfolding parallelStage_def upt_numThreads
  by (simp add: chunkTask_empty numThreads_def)

lemma chunkList_short:
  assumes "length t < numThreads"
  shows "chunkList t = [[], [], [], t]"
  using assms by (simp add: chunkList_def chunkSize_def)

text \<open>
  Claim C10. For every text, also one shorter than the number of workers, every chunk has
  \<open>start \<le> end \<le> size\<close>, so no call of \<open>substr\<close> throws and neither a chunk task nor the
  stage ends in \<open>OutOfRange\<close>; a text shorter than \<open>numThreads\<close> gives three empty
  chunks followed by the whole text.
\<close>

theorem chunk_extraction_in_range:
  "(\<forall>i < numThreads.
      chunkStart t i \<le> chunkEnd t i \<and> chunkEnd t i \<le> length t \<and>
      chunkOf t i = Inr (take (chunkEnd t i - chunkStart t i) (drop (chunkStart t i) t)) \<and>
      chunkTask applyCipher ciphers t mode i \<noteq> Inl OutOfRange) \<and>
   parallelStage applyCipher ciphers t mode \<noteq> Inl OutOfRange \<and>
   (length t < numThreads \<longrightarrow>
      map (chunkOf t) [0 ..< numThreads] = [Inr [], Inr [], Inr [], Inr t])"
proof (intro conjI allI impI)
  fix i assume i: "i < numThreads"
  show "chunkStart t i \<le> chunkEnd t i" and "chunkEnd t i \<le> length t"
    using chunk_bounds [OF i] by simp_all
  show "chunkOf t i = Inr (take (chunkEnd t i - chunkStart t i) (drop (chunkStart t i) t))"
    by (rule chunkOf_Inr [OF i])
  show "chunkTask applyCipher ciphers t mode i \<noteq> Inl OutOfRange"
    by (cases ciphers) (simp_all add: chunkTask_front [OF i] chunkTask_empty [OF i])
next
  show "parallelStage applyCipher ciphers t mode \<noteq> Inl OutOfRange"
    by (cases ciphers) (simp_all add: parallelStage_front parallelStage_empty)
next
  assume "length t < numThreads"
  then show "map (chunkOf t) [0 ..< numThreads] = [Inr [], Inr [], Inr [], Inr t]"
    by (simp add: chunkOf_all chunkList_short)
qed

theorem chunk_extraction_in_range_witness:
  "(3::nat) < numThreads \<and> length ''ABC'' < numThreads \<and>
   chunkStart ''ABC'' 3 \<le> chunkEnd ''ABC'' 3 \<and> chunkEnd ''ABC'' 3 \<le> length ''ABC'' \<and>
   chunkOf ''ABC'' 3 = Inr ''ABC'' \<and>
   map (chunkOf ''ABC'') [0 ..< numThreads] = [Inr [], Inr [], Inr [], Inr ''ABC'']"
proof -
  have i: "(3::nat) < numThreads" and l: "length ''ABC'' < numThreads"
    by (simp_all add: numThreads_def)
  note T = chunk_extraction_in_range [where t = "''ABC''" and ciphers = "[()]"
      and applyCipher = "\<lambda>c s m. s" and mode = Encrypt]
  from T i have "chunkStart ''ABC'' 3 \<le> chunkEnd ''ABC'' 3 \<and> chunkEnd ''ABC'' 3 \<le> length ''ABC'' \<and>
      chunkOf ''ABC'' 3 = Inr (take (chunkEnd ''ABC'' 3 - chunkStart ''ABC'' 3)
                                 (drop (chunkStart ''ABC'' 3) ''ABC''))"
    by blast
  moreover have "chunkStart ''ABC'' 3 = 0" "chunkEnd ''ABC'' 3 = 3"
    by (simp_all add: chunkStart_def chunkEnd_def chunkSize_def numThreads_def)
  moreover from T l have "map (chunkOf ''ABC'') [0 ..< numThreads] = [Inr [], Inr [], Inr [], Inr ''ABC'']"
    by blast
  ultimately show ?thesis
    using i l by simp
qed


section \<open>Chunked and sequential Caesar\<close>

lemma concat_map_chunkList: "concat (map (map f) (chunkList t)) = map f t"
proof -
  have "concat (map (map f) (chunkList t)) = map f (concat (chunkList t))"
    by (simp only: map_concat)
  then show ?thesis by (simp only: concat_chunkList)
qed

text \<open>
  Claim C1. For every text, of any length, every shift and both modes, the stage run in
  four chunks with a Caesar cipher at the front gives the text that one call of the
  Caesar transform on the whole text gives: the results of the chunks, put together, are
  the transform of the text.
\<close>

theorem caesar_chunked_equals_sequential:
  "parallelStage Cipher_applyCipher (CaesarCipher k # rest) inputText mode =
     Inr (Cipher_applyCipher (CaesarCipher k) inputText mode,
          map (Pair (CaesarCipher k)) (chunkList inputText)) \<and>
   concat (map (\<lambda>chunk. Cipher_applyCipher (CaesarCipher k) chunk mode) (chunkList inputText)) =
     Cipher_applyCipher (CaesarCipher k) inputText mode \<and>
   applyStage Cipher_applyCipher (settingsFor [Caesar] [key] mode) [CaesarCipher k]
       (CaesarCipher k) inputText =
     Inr (Cipher_applyCipher (CaesarCipher k) inputText mode,
          map (Pair (CaesarCipher k)) (chunkList inputText))"
proof -
  have "(\<lambda>chunk. Cipher_applyCipher (CaesarCipher k) chunk mode) = map (shiftLetter mode k)"
    by (rule ext) (simp add: caesarApply_def)
  then have c: "concat (map (\<lambda>chunk. Cipher_applyCipher (CaesarCipher k) chunk mode) (chunkList inputText)) =
     Cipher_applyCipher (CaesarCipher k) inputText mode"
    by (simp add: concat_map_chunkList caesarApply_def)
  have s: "applyStage Cipher_applyCipher (settingsFor [Caesar] [key] mode) [CaesarCipher k]
             (CaesarCipher k) inputText =
           parallelStage Cipher_applyCipher [CaesarCipher k] inputText mode"
    by (simp add: applyStage_def settingsFor_def)
  show ?thesis
    unfolding s parallelStage_front c by simp
qed

theorem caesar_chunked_equals_sequential_witness:
  "parallelStage Cipher_applyCipher [CaesarCipher 3] [] Encrypt =
     Inr ([], [(CaesarCipher 3, []), (CaesarCipher 3, []), (CaesarCipher 3, []),
               (CaesarCipher 3, [])]) \<and>
   parallelStage Cipher_applyCipher [CaesarCipher 3] ''A'' Encrypt =
     Inr (''D'', [(CaesarCipher 3, []), (CaesarCipher 3, []), (CaesarCipher 3, []),
                  (CaesarCipher 3, ''A'')]) \<and>
   parallelStage Cipher_applyCipher [CaesarCipher 3] ''ABC'' Decrypt =
     Inr (''XYZ'', [(CaesarCipher 3, []), (CaesarCipher 3, []), (CaesarCipher 3, []),
                    (CaesarCipher 3, ''ABC'')])"
proof -
  have c: "chunkList [] = [[], [], [], []]" "chunkList ''A'' = [[], [], [], ''A'']"
    "chunkList ''ABC'' = [[], [], [], ''ABC'']"
    by (simp_all add: chunkList_short numThreads_def)
  have t: "Cipher_applyCipher (CaesarCipher 3) [] Encrypt = []"
    "Cipher_applyCipher (CaesarCipher 3) ''A'' Encrypt = ''D''"
    "Cipher_applyCipher (CaesarCipher 3) ''ABC'' Decrypt = ''XYZ''"
    by code_simp+
  from caesar_chunked_equals_sequential [of 3 "[]" "[]" Encrypt]
  have 0: "parallelStage Cipher_applyCipher [CaesarCipher 3] [] Encrypt =
     Inr ([], [(CaesarCipher 3, []), (CaesarCipher 3, []), (CaesarCipher 3, []),
               (CaesarCipher 3, [])])"
    unfolding c t by simp
  from caesar_chunked_equals_sequential [of 3 "[]" "''A''" Encrypt]
  have 1: "parallelStage Cipher_applyCipher [CaesarCipher 3] ''A'' Encrypt =
     Inr (''D'', [(CaesarCipher 3, []), (CaesarCipher 3, []), (CaesarCipher 3, []),
                  (CaesarCipher 3, ''A'')])"
    unfolding c t by simp
  from caesar_chunked_equals_sequential [of 3 "[]" "''ABC''" Decrypt]
  have 3: "parallelStage Cipher_applyCipher [CaesarCipher 3] ''ABC'' Decrypt =
     Inr (''XYZ'', [(CaesarCipher 3, []), (CaesarCipher 3, []), (CaesarCipher 3, []),
                    (CaesarCipher 3, ''ABC'')])"
    unfolding c t by simp
  from 0 1 3 show ?thesis by (intro conjI)
qed

section \<open>The order of completion\<close>

lemma completeTasks_lookup:
  "completeTasks task completed shared i =
     (if i \<in> set completed then Some (task i) else shared i)"
  by (induction completed arbitrary: shared) auto

lemma those_map_Some: "those (map (\<lambda>i. Some (f i)) xs) = Some (map f xs)"
  by (induction xs) simp_all

lemma parallelStageCompleting_all:
  assumes "set completed = {0 ..< numThreads}"
  shows "parallelStageCompleting completed applyCipher ciphers cipherText mode =
           Some (parallelStage applyCipher ciphers cipherText mode)"
proof -
  have h: "map (completeTasks (chunkTask applyCipher ciphers cipherText mode) completed Map.empty)
          [0 ..< numThreads] =
        map (\<lambda>i. Some (chunkTask applyCipher ciphers cipherText mode i)) [0 ..< numThreads]"
    using assms by (simp add: completeTasks_lookup)
  show ?thesis
    unfolding parallelStageCompleting_def h those_map_Some parallelStage_def by simp
qed

text \<open>
  Claim C9. In whatever order the four tasks complete, the stage output is the same: the
  results of the tasks put together in the order of their chunk indices, which is what
  \<open>parallelStage\<close> computes.
\<close>

theorem stage_output_in_chunk_order:
  assumes "set completed1 = {0 ..< numThreads}" and "set completed2 = {0 ..< numThreads}"
  shows "parallelStageCompleting completed1 applyCipher ciphers cipherText mode =
           parallelStageCompleting completed2 applyCipher ciphers cipherText mode \<and>
         parallelStageCompleting completed1 applyCipher ciphers cipherText mode =
           Some (parallelStage applyCipher ciphers cipherText mode) \<and>
         (ciphers \<noteq> [] \<longrightarrow>
            (\<exists>results.
               map (chunkTask applyCipher ciphers cipherText mode) [0 ..< numThreads] =
                 map Inr results \<and>
               parallelStage applyCipher ciphers cipherText mode =
                 Inr (concat (map fst results), concat (map snd results))))"
proof (intro conjI impI)
  show "parallelStageCompleting completed1 applyCipher ciphers cipherText mode =
           parallelStageCompleting completed2 applyCipher ciphers cipherText mode"
    by (simp only: parallelStageCompleting_all [OF assms(1)] parallelStageCompleting_all [OF assms(2)])
  show "parallelStageCompleting completed1 applyCipher ciphers cipherText mode =
           Some (parallelStage applyCipher ciphers cipherText mode)"
    by (rule parallelStageCompleting_all [OF assms(1)])
next
  assume "ciphers \<noteq> []"
  then obtain front rest where c: "ciphers = front # rest"
    by (cases ciphers) auto
  let ?results = "map (\<lambda>chunk. (applyCipher front chunk mode, [(front, chunk)])) (chunkList cipherText)"
  have h: "map (chunkTask applyCipher ciphers cipherText mode) [0 ..< numThreads] = map Inr ?results"
    unfolding upt_numThreads c
    by (simp add: chunkTask_front numThreads_def chunkList_def)
  have "parallelStage applyCipher ciphers cipherText mode =
                 Inr (concat (map fst ?results), concat (map snd ?results))"
    unfolding parallelStage_def h getFutures_Inr by simp
  with h show "\<exists>results.
               map (chunkTask applyCipher ciphers cipherText mode) [0 ..< numThreads] =
                 map Inr results \<and>
               parallelStage applyCipher ciphers cipherText mode =
                 Inr (concat (map fst results), concat (map snd results))"
    by blast
qed

theorem stage_output_in_chunk_order_witness:
  "set [2, 0, 3, 1] = {0 ..< numThreads} \<and> set [0, 1, 2, 3] = {0 ..< numThreads} \<and>
   parallelStageCompleting [2, 0, 3, 1] Cipher_applyCipher [CaesarCipher 3] ''HELLO'' Encrypt =
     parallelStageCompleting [0, 1, 2, 3] Cipher_applyCipher [CaesarCipher 3] ''HELLO'' Encrypt \<and>
   parallelStageCompleting [2, 0, 3, 1] Cipher_applyCipher [CaesarCipher 3] ''HELLO'' Encrypt =
     Some (Inr (''KHOOR'', [(CaesarCipher 3, ''H''), (CaesarCipher 3, ''E''),
                            (CaesarCipher 3, ''L''), (CaesarCipher 3, ''LO'')]))"
proof -
  have a: "set [2, 0, 3, 1] = {0 ..< numThreads}" and b: "set [0, 1, 2, 3] = {0 ..< numThreads}"
    by (auto simp: numThreads_def)
  have p: "parallelStage Cipher_applyCipher [CaesarCipher 3] ''HELLO'' Encrypt =
     Inr (''KHOOR'', [(CaesarCipher 3, ''H''), (CaesarCipher 3, ''E''), (CaesarCipher 3, ''L''), (CaesarCipher 3, ''LO'')])"
    by code_simp
  note T = stage_output_in_chunk_order [OF a b, of Cipher_applyCipher "[CaesarCipher 3]" "''HELLO''" Encrypt]
  from T have c: "parallelStageCompleting [2, 0, 3, 1] Cipher_applyCipher [CaesarCipher 3] ''HELLO'' Encrypt =
     parallelStageCompleting [0, 1, 2, 3] Cipher_applyCipher [CaesarCipher 3] ''HELLO'' Encrypt"
    by (rule conjunct1)
  from T have d: "parallelStageCompleting [2, 0, 3, 1] Cipher_applyCipher [CaesarCipher 3] ''HELLO'' Encrypt =
     Some (parallelStage Cipher_applyCipher [CaesarCipher 3] ''HELLO'' Encrypt)"
    by blast
  show ?thesis
    using a b c d [unfolded p] by (intro conjI)
qed


section \<open>The wait for the futures\<close>

lemma awaitReady_Some:
  assumes "awaitReady wait_for n = Some r"
  shows "n < r \<and> wait_for (r - 1) = Ready"
proof (rule awaitReady.raw_induct [OF _ assms])
  fix await w k y
  assume IH: "\<And>w' k' y'. await w' k' = Some y' \<Longrightarrow> k' < y' \<and> w' (y' - 1) = Ready"
    and step: "(if w k \<noteq> Ready then await w (Suc k) else Some (Suc k)) = Some y"
  show "k < y \<and> w (y - 1) = Ready"
  proof (cases "w k = Ready")
    case True
    with step show ?thesis by auto
  next
    case False
    with step have "await w (Suc k) = Some y" by simp
    from IH [OF this] show ?thesis by simp
  qed
qed

lemma awaitReady_never:
  assumes "\<forall>k. wait_for k \<noteq> Ready"
  shows "awaitReady wait_for n = None"
proof (cases "awaitReady wait_for n")
  case None
  then show ?thesis .
next
  case (Some r)
  from awaitReady_Some [OF this] assms show ?thesis by simp
qed

lemma awaitReady_ready:
  assumes "wait_for k = Ready" and "n \<le> k"
  shows "\<exists>r. awaitReady wait_for n = Some r \<and> r \<le> Suc k"
  using assms(2)
proof (induction "k - n" arbitrary: n)
  case 0
  then have "n = k" by simp
  with assms(1) show ?case
    by (subst awaitReady.simps) simp
next
  case (Suc d)
  show ?case
  proof (cases "wait_for n = Ready")
    case True
    then show ?thesis
      using Suc.prems by (subst awaitReady.simps) simp
  next
    case False
    from Suc have "d = k - Suc n" and "Suc n \<le> k" by simp_all
    from Suc.hyps(1) [OF this] obtain r where "awaitReady wait_for (Suc n) = Some r" and "r \<le> Suc k"
      by blast
    with False show ?thesis
      by (subst awaitReady.simps) simp
  qed
qed

lemma awaitReady_returns_iff:
  "(\<exists>r. awaitReady wait_for 0 = Some r) \<longleftrightarrow> (\<exists>k. wait_for k = Ready)"
proof
  assume "\<exists>r. awaitReady wait_for 0 = Some r"
  then obtain r where "awaitReady wait_for 0 = Some r" ..
  from awaitReady_Some [OF this] show "\<exists>k. wait_for k = Ready" by blast
next
  assume "\<exists>k. wait_for k = Ready"
  then obtain k where "wait_for k = Ready" ..
  then show "\<exists>r. awaitReady wait_for 0 = Some r"
    using awaitReady_ready [of wait_for k 0] by blast
qed

lemma waitFutures_returns_iff:
  "(\<exists>n. waitFutures futures = Some n) \<longleftrightarrow> (\<forall>w \<in> set futures. \<exists>k. w k = Ready)"
proof (induction futures)
  case Nil
  show ?case by simp
next
  case (Cons w futures)
  show ?case
  proof (cases "awaitReady w 0")
    case None
    then have "\<not> (\<exists>k. w k = Ready)"
      using awaitReady_returns_iff [of w] by simp
    with None show ?thesis by auto
  next
    case (Some r)
    then have "\<exists>k. w k = Ready"
      using awaitReady_returns_iff [of w] by blast
    with Some Cons.IH show ?thesis
      by (auto split: option.splits)
  qed
qed

text \<open>
  Claim C7, as amended. The wait has no time budget and no timeout error: each future is
  polled again and again until it reports \<open>Ready\<close>. The parallel branch returns, with the
  result of the stage, exactly when every one of the futures reports \<open>Ready\<close> at some
  call; otherwise it never returns.
\<close>

theorem wait_returns_iff_all_ready:
  "parallelStageWaiting wait_for applyCipher ciphers cipherText mode =
     (if \<forall>i < numThreads. \<exists>k. wait_for i k = Ready
      then Some (parallelStage applyCipher ciphers cipherText mode)
      else None)"
proof -
  have "(\<exists>n. waitFutures (map wait_for [0 ..< numThreads]) = Some n)
          \<longleftrightarrow> (\<forall>i < numThreads. \<exists>k. wait_for i k = Ready)"
    unfolding waitFutures_returns_iff by auto
  then show ?thesis
    by (auto simp: parallelStageWaiting_def split: option.splits)
qed

theorem wait_returns_iff_all_ready_witness:
  "parallelStageWaiting (\<lambda>i k. if k < 2 then Timeout else Ready) Cipher_applyCipher [CaesarCipher 3] ''HELLO'' Encrypt
     = Some (Inr (''KHOOR'', [(CaesarCipher 3, ''H''), (CaesarCipher 3, ''E''), (CaesarCipher 3, ''L''), (CaesarCipher 3, ''LO'')]))"
proof -
  have "\<forall>i < numThreads. \<exists>k::nat. (if k < 2 then Timeout else Ready) = Ready"
    by (auto intro: exI [of _ 2])
  moreover have "parallelStage Cipher_applyCipher [CaesarCipher 3] ''HELLO'' Encrypt =
     Inr (''KHOOR'', [(CaesarCipher 3, ''H''), (CaesarCipher 3, ''E''), (CaesarCipher 3, ''L''), (CaesarCipher 3, ''LO'')])"
    by code_simp
  ultimately show ?thesis
    using wait_returns_iff_all_ready [of "\<lambda>i k. if k < 2 then Timeout else Ready" Cipher_applyCipher "[CaesarCipher 3]" "''HELLO''" Encrypt]
    by simp
qed


text \<open>
  The claim as stated fails: with a task that never completes (here the third one) the
  wait neither returns nor raises a timeout error.
\<close>

theorem wait_never_returns_counterexample:
  "parallelStageWaiting (\<lambda>i k. if i = 2 then Timeout else Ready) Cipher_applyCipher [CaesarCipher 3] ''HELLO'' Encrypt = None"
proof -
  have "awaitReady (\<lambda>k. Timeout) 0 = None"
    by (rule awaitReady_never) simp
  moreover have "awaitReady (\<lambda>k. Ready) 0 = Some 1"
    by (subst awaitReady.simps) simp
  ultimately show ?thesis
    unfolding parallelStageWaiting_def upt_numThreads by simp
qed


section \<open>The stages of a pipeline with a Caesar cipher in it\<close>

text \<open>
  Without \<open>Caesar\<close> among the cipher types every stage is the direct call of the branch
  for Vigenere and Playfair, and the pipeline is the fold of the transforms over the
  ciphers, in the order of the list when encrypting and in the reversed order when
  decrypting.
\<close>

lemma runStages_without_Caesar:
  assumes "Caesar \<notin> set (cipherType settings)"
  shows "\<exists>made. runStages applyCipher settings ciphers stages (cipherText, calls) =
           Inr (foldl (\<lambda>t c. applyCipher c t (cipherMode settings)) cipherText stages, made)"
  using assms
proof (induction stages arbitrary: cipherText calls)
  case Nil
  show ?case by simp
next
  case (Cons c rest)
  then show ?case by (simp add: applyStage_def)
qed

lemma runPipeline_without_Caesar:
  assumes "Caesar \<notin> set (cipherType settings)"
  shows "\<exists>made. runPipeline applyCipher settings ciphers cipherText =
           Inr (foldl (\<lambda>t c. applyCipher c t (cipherMode settings)) cipherText
                  (if cipherMode settings = Decrypt then rev ciphers else ciphers), made)"
  using runStages_without_Caesar [OF assms, of applyCipher _ _ cipherText "[]"]
  by (simp add: runPipeline_def orderCiphers_def)

text \<open>
  With \<open>Caesar\<close> among the cipher types every stage is the parallel branch on the
  cipher at the front of the vector, whatever the cipher of the stage is and whatever
  the transforms are.
\<close>

lemma applyStage_with_Caesar:
  assumes "Caesar \<in> set (cipherType settings)"
  shows "applyStage applyCipher settings (front # rest) cipher cipherText =
           Inr (concat (map (\<lambda>chunk. applyCipher front chunk (cipherMode settings))
                         (chunkList cipherText)),
                map (\<lambda>chunk. (front, chunk)) (chunkList cipherText))"
  using assms by (simp add: applyStage_def parallelStage_front)

text \<open>
  Claim C2, evaluated where it fails. In the run of Caesar (key 1) followed by Vigenere
  (key C) on the text AB, the second stage takes the parallel branch as well: the eight
  calls are all made on the Caesar cipher, the transform of the Vigenere cipher is never
  called, and the output is CD. The direct call of the Vigenere transform on the output
  BC of the first stage gives DE.
\<close>

theorem vigenere_stage_takes_parallel_branch:
  "runCiphers CipherFactory_makeCipher Cipher_applyCipher True
     (settingsFor [Caesar, Vigenere] [''1'', ''C''] Encrypt) ''AB'' =
   Inr \<lparr>exitCode = 0, errorLines = [], outputText = Some (''CD'' @ newline),
        applied = [(CaesarCipher 1, []), (CaesarCipher 1, []), (CaesarCipher 1, []),
                   (CaesarCipher 1, ''AB''), (CaesarCipher 1, []), (CaesarCipher 1, []),
                   (CaesarCipher 1, []), (CaesarCipher 1, ''BC'')]\<rparr> \<and>
   Cipher_applyCipher (VigenereCipher ''C'') ''BC'' Encrypt = ''DE''"
  by code_simp

text \<open>
  Claim C3, evaluated where it fails. In the run of two Caesar ciphers with the keys 1
  and 2 on the text AB, the chunk tasks of the second stage call the cipher at the front
  of the vector, the one with key 1: the output is CD, where shift 1 followed by shift 2
  gives DE.
\<close>

theorem chunk_tasks_apply_front_cipher:
  "runCiphers CipherFactory_makeCipher Cipher_applyCipher True
     (settingsFor [Caesar, Caesar] [''1'', ''2''] Encrypt) ''AB'' =
   Inr \<lparr>exitCode = 0, errorLines = [], outputText = Some (''CD'' @ newline),
        applied = [(CaesarCipher 1, []), (CaesarCipher 1, []), (CaesarCipher 1, []),
                   (CaesarCipher 1, ''AB''), (CaesarCipher 1, []), (CaesarCipher 1, []),
                   (CaesarCipher 1, []), (CaesarCipher 1, ''BC'')]\<rparr> \<and>
   Cipher_applyCipher (CaesarCipher 2) (Cipher_applyCipher (CaesarCipher 1) ''AB'' Encrypt) Encrypt
     = ''DE''"
  by code_simp

text \<open>
  Claim C4, evaluated where it fails. In the run of Vigenere (key C) followed by Caesar
  (key 1) on the text AB, the transforms are not applied in the order of the list: the
  Vigenere transform is applied twice and the Caesar transform not at all, with the
  output EF, where the two transforms in the order of the list give DE. Decrypting DE
  with the same ciphers applies the Caesar transform twice (the front of the reversed
  list) and gives BC, not AB.
\<close>

theorem pipeline_repeats_front_cipher:
  "runCiphers CipherFactory_makeCipher Cipher_applyCipher True
     (settingsFor [Vigenere, Caesar] [''C'', ''1''] Encrypt) ''AB'' =
   Inr \<lparr>exitCode = 0, errorLines = [], outputText = Some (''EF'' @ newline),
        applied = [(VigenereCipher ''C'', []), (VigenereCipher ''C'', []),
                   (VigenereCipher ''C'', []), (VigenereCipher ''C'', ''AB''),
                   (VigenereCipher ''C'', []), (VigenereCipher ''C'', []),
                   (VigenereCipher ''C'', []), (VigenereCipher ''C'', ''CD'')]\<rparr> \<and>
   Cipher_applyCipher (CaesarCipher 1) (Cipher_applyCipher (VigenereCipher ''C'') ''AB'' Encrypt)
     Encrypt = ''DE'' \<and>
   runCiphers CipherFactory_makeCipher Cipher_applyCipher True
     (settingsFor [Vigenere, Caesar] [''C'', ''1''] Decrypt) ''DE'' =
   Inr \<lparr>exitCode = 0, errorLines = [], outputText = Some (''BC'' @ newline),
        applied = [(CaesarCipher 1, []), (CaesarCipher 1, []), (CaesarCipher 1, []),
                   (CaesarCipher 1, ''DE''), (CaesarCipher 1, []), (CaesarCipher 1, []),
                   (CaesarCipher 1, []), (CaesarCipher 1, ''CD'')]\<rparr>"
  by code_simp

section \<open>Decrypting what was encrypted\<close>

subsection \<open>Caesar and Vigenere\<close>

lemma letterAt_position: "isLetter c \<Longrightarrow> letterAt (position c) = c"
  by (simp add: isLetter_def letterAt_def position_def)

lemma position_less: "isLetter c \<Longrightarrow> position c < alphabetSize"
  unfolding isLetter_def position_def alphabetSize_def by linarith

lemma isLetter_letterAt: "p < alphabetSize \<Longrightarrow> isLetter (letterAt p)"
  by (simp add: isLetter_def letterAt_def alphabetSize_def)

lemma position_letterAt: "p < alphabetSize \<Longrightarrow> position (letterAt p) = p"
  by (simp add: letterAt_def position_def alphabetSize_def)

lemma shift_back:
  assumes "p < alphabetSize" and "k < alphabetSize"
  shows "((p + k) mod alphabetSize + alphabetSize - k) mod alphabetSize = p"
proof (cases "p + k < alphabetSize")
  case True
  then have "(p + k) mod alphabetSize = p + k" by simp
  then show ?thesis using assms by simp
next
  case False
  with assms have "(p + k) mod alphabetSize = p + k - alphabetSize"
    by (simp add: mod_if)
  with False assms show ?thesis by simp
qed

lemma shiftLetter_round_trip:
  assumes "k < alphabetSize"
  shows "shiftLetter Decrypt k (shiftLetter Encrypt k c) = c"
proof (cases "isLetter c")
  case False
  then show ?thesis by (simp add: shiftLetter_def)
next
  case True
  let ?q = "(position c + k) mod alphabetSize"
  have q: "?q < alphabetSize" by (simp add: alphabetSize_def)
  have "shiftLetter Encrypt k c = letterAt ?q"
    using True by (simp add: shiftLetter_def)
  moreover have "shiftLetter Decrypt k (letterAt ?q) =
      letterAt ((?q + alphabetSize - k) mod alphabetSize)"
    using isLetter_letterAt [OF q] position_letterAt [OF q] by (simp add: shiftLetter_def)
  moreover have "(?q + alphabetSize - k) mod alphabetSize = position c"
    using shift_back [OF position_less [OF True] assms] .
  ultimately show ?thesis
    using letterAt_position [OF True] by simp
qed

lemma caesar_round_trip:
  assumes "k < alphabetSize"
  shows "caesarApply k (caesarApply k inputText Encrypt) Decrypt = inputText"
  by (simp add: caesarApply_def comp_def shiftLetter_round_trip [OF assms])

lemma vigenereFrom_round_trip:
  assumes "key \<noteq> []" and "list_all isLetter key"
  shows "vigenereFrom key Decrypt i (vigenereFrom key Encrypt i inputText) = inputText"
proof (induction inputText arbitrary: i)
  case Nil
  show ?case by simp
next
  case (Cons c rest)
  have "i mod length key < length key" using assms(1) by simp
  then have "isLetter (key ! (i mod length key))"
    using assms(2) by (simp add: list_all_length)
  then have "position (key ! (i mod length key)) < alphabetSize"
    by (rule position_less)
  then show ?case
    using Cons.IH by (simp add: shiftLetter_round_trip)
qed

lemma vigenere_round_trip:
  assumes "key \<noteq> []" and "list_all isLetter key"
  shows "vigenereApply key (vigenereApply key inputText Encrypt) Decrypt = inputText"
  using assms by (simp add: vigenereApply_def vigenereFrom_round_trip)

subsection \<open>The cells of the Playfair grid\<close>

lemma step_back: "c < 5 \<Longrightarrow> ((c + 1) mod 5 + 4) mod 5 = (c::nat)"
proof -
  assume "c < 5"
  then have "c = 0 \<or> c = 1 \<or> c = 2 \<or> c = 3 \<or> c = 4" by linarith
  then show ?thesis by auto
qed

lemma step_inj:
  assumes "c < 5" and "d < 5" and "(c + 1) mod 5 = (d + 1) mod 5"
  shows "c = (d::nat)"
proof -
  have "c = ((c + 1) mod 5 + 4) mod 5" using step_back [OF assms(1)] by simp
  also have "\<dots> = ((d + 1) mod 5 + 4) mod 5" by (simp only: assms(3))
  also have "\<dots> = d" by (rule step_back [OF assms(2)])
  finally show ?thesis .
qed

lemma cell_div: "c < 5 \<Longrightarrow> (5 * r + c) div 5 = (r::nat)"
  by simp

lemma cell_mod: "c < 5 \<Longrightarrow> (5 * r + c) mod 5 = (c::nat)"
  by simp

lemma cell_less: "r < 5 \<Longrightarrow> c < 5 \<Longrightarrow> 5 * r + c < (25::nat)"
  by simp

lemma shiftCells_same_row:
  "i div 5 = j div 5 \<Longrightarrow>
     shiftCells mode i j =
       (5 * (i div 5) + (i mod 5 + (case mode of Encrypt \<Rightarrow> 1 | Decrypt \<Rightarrow> 4)) mod 5,
        5 * (j div 5) + (j mod 5 + (case mode of Encrypt \<Rightarrow> 1 | Decrypt \<Rightarrow> 4)) mod 5)"
  by (simp add: shiftCells_def Let_def)

lemma shiftCells_same_column:
  "i div 5 \<noteq> j div 5 \<Longrightarrow> i mod 5 = j mod 5 \<Longrightarrow>
     shiftCells mode i j =
       (5 * ((i div 5 + (case mode of Encrypt \<Rightarrow> 1 | Decrypt \<Rightarrow> 4)) mod 5) + i mod 5,
        5 * ((j div 5 + (case mode of Encrypt \<Rightarrow> 1 | Decrypt \<Rightarrow> 4)) mod 5) + j mod 5)"
  by (simp add: shiftCells_def Let_def)

lemma shiftCells_rectangle:
  "i div 5 \<noteq> j div 5 \<Longrightarrow> i mod 5 \<noteq> j mod 5 \<Longrightarrow>
     shiftCells mode i j = (5 * (i div 5) + j mod 5, 5 * (j div 5) + i mod 5)"
  by (simp add: shiftCells_def Let_def)

lemma shiftCells_round_trip:
  assumes "i < 25" and "j < 25" and "i \<noteq> j"
  shows "\<exists>i' j'. shiftCells Encrypt i j = (i', j') \<and> i' < 25 \<and> j' < 25 \<and> i' \<noteq> j' \<and>
           shiftCells Decrypt i' j' = (i, j)"
proof -
  define ra ca rb cb where "ra = i div 5" and "ca = i mod 5" and "rb = j div 5" and "cb = j mod 5"
  have bounds: "ra < 5" "ca < 5" "rb < 5" "cb < 5"
    using assms by (simp_all add: ra_def ca_def rb_def cb_def)
  have i: "i = 5 * ra + ca" and j: "j = 5 * rb + cb"
    by (simp_all add: ra_def ca_def rb_def cb_def)
  consider (row) "ra = rb" | (column) "ra \<noteq> rb" "ca = cb" | (rectangle) "ra \<noteq> rb" "ca \<noteq> cb"
    by blast
  then show ?thesis
  proof cases
    case row
    with assms(3) i j have ne: "ca \<noteq> cb" by auto
    let ?i = "5 * ra + (ca + 1) mod 5" and ?j = "5 * rb + (cb + 1) mod 5"
    have e: "shiftCells Encrypt i j = (?i, ?j)"
      using row shiftCells_same_row [of i j Encrypt] by (simp add: ra_def ca_def rb_def cb_def)
    have l: "?i < 25" "?j < 25"
      using bounds by (simp_all add: cell_less)
    have n: "?i \<noteq> ?j"
      using ne step_inj [OF bounds(2) bounds(4)] row by auto
    have di: "?i div 5 = ra" "?i mod 5 = (ca + 1) mod 5" "?j div 5 = rb" "?j mod 5 = (cb + 1) mod 5"
      by (simp_all add: cell_div cell_mod)
    have d: "shiftCells Decrypt ?i ?j = (i, j)"
      using row shiftCells_same_row [of ?i ?j Decrypt] step_back [OF bounds(2)] step_back [OF bounds(4)]
      unfolding di i j by simp
    from e l n d show ?thesis by blast
  next
    case column
    let ?i = "5 * ((ra + 1) mod 5) + ca" and ?j = "5 * ((rb + 1) mod 5) + cb"
    have e: "shiftCells Encrypt i j = (?i, ?j)"
      using column shiftCells_same_column [of i j Encrypt] by (simp add: ra_def ca_def rb_def cb_def)
    have l: "?i < 25" "?j < 25"
      using bounds by (simp_all add: cell_less)
    have r: "(ra + 1) mod 5 \<noteq> (rb + 1) mod 5"
      using column(1) step_inj [OF bounds(1) bounds(3)] by auto
    have di: "?i div 5 = (ra + 1) mod 5" "?i mod 5 = ca" "?j div 5 = (rb + 1) mod 5" "?j mod 5 = cb"
      using bounds by (simp_all add: cell_div cell_mod)
    have n: "?i \<noteq> ?j"
      using r di by metis
    have d: "shiftCells Decrypt ?i ?j = (i, j)"
      using r column(2) shiftCells_same_column [of ?i ?j Decrypt] step_back [OF bounds(1)] step_back [OF bounds(3)]
      unfolding di i j by simp
    from e l n d show ?thesis by blast
  next
    case rectangle
    let ?i = "5 * ra + cb" and ?j = "5 * rb + ca"
    have e: "shiftCells Encrypt i j = (?i, ?j)"
      using rectangle shiftCells_rectangle [of i j Encrypt] by (simp add: ra_def ca_def rb_def cb_def)
    have l: "?i < 25" "?j < 25"
      using bounds by (simp_all add: cell_less)
    have di: "?i div 5 = ra" "?i mod 5 = cb" "?j div 5 = rb" "?j mod 5 = ca"
      using bounds by (simp_all add: cell_div cell_mod)
    have n: "?i \<noteq> ?j"
      using rectangle(1) di by metis
    have d: "shiftCells Decrypt ?i ?j = (i, j)"
      using rectangle shiftCells_rectangle [of ?i ?j Decrypt]
      unfolding di i j by simp
    from e l n d show ?thesis by blast
  qed
qed

subsection \<open>Playfair digraphs\<close>

lemma indexOf_less: "x \<in> set xs \<Longrightarrow> indexOf x xs < length xs"
  by (induction xs) auto

lemma nth_indexOf: "x \<in> set xs \<Longrightarrow> xs ! indexOf x xs = x"
  by (induction xs) auto

lemma indexOf_nth: "distinct xs \<Longrightarrow> i < length xs \<Longrightarrow> indexOf (xs ! i) xs = i"
proof (induction xs arbitrary: i)
  case Nil
  then show ?case by simp
next
  case (Cons x xs)
  show ?case
  proof (cases i)
    case 0
    then show ?thesis by simp
  next
    case (Suc k)
    with Cons.prems have "k < length xs" and "xs ! k \<in> set xs" and "x \<notin> set xs" by simp_all
    then have "x \<noteq> xs ! k" by auto
    with Suc Cons show ?thesis by simp
  qed
qed

lemma playfairPair_round_trip:
  assumes "validGrid grid" and "a \<noteq> b"
  shows "\<exists>a' b'. playfairPair grid Encrypt a b = [a', b'] \<and> a' \<noteq> b' \<and>
           (a \<noteq> CHR ''J'' \<and> b \<noteq> CHR ''J'' \<longrightarrow> a' \<noteq> CHR ''J'' \<and> b' \<noteq> CHR ''J'') \<and>
           playfairPair grid Decrypt a' b' = [a, b]"
proof (cases "a \<in> set grid \<and> b \<in> set grid")
  case False
  then have "playfairPair grid mode a b = [a, b]" for mode
    by (auto simp: playfairPair_def)
  with assms(2) show ?thesis by simp
next
  case True
  from assms(1) have d: "distinct grid" and l: "length grid = 25" and nj: "CHR ''J'' \<notin> set grid"
    by (simp_all add: validGrid_def)
  let ?i = "indexOf a grid" and ?j = "indexOf b grid"
  have i: "?i < 25" and j: "?j < 25"
    using True indexOf_less [of a grid] indexOf_less [of b grid] l by simp_all
  have ai: "grid ! ?i = a" and bj: "grid ! ?j = b"
    using True by (simp_all add: nth_indexOf)
  with assms(2) have "?i \<noteq> ?j" by auto
  from shiftCells_round_trip [OF i j this] obtain i' j' where
    e: "shiftCells Encrypt ?i ?j = (i', j')" and i': "i' < 25" and j': "j' < 25"
    and n: "i' \<noteq> j'" and inv: "shiftCells Decrypt i' j' = (?i, ?j)"
    by blast
  let ?a = "grid ! i'" and ?b = "grid ! j'"
  have mem: "?a \<in> set grid" "?b \<in> set grid"
    using i' j' l by simp_all
  have 1: "playfairPair grid Encrypt a b = [?a, ?b]"
    using True e by (simp add: playfairPair_def)
  have 2: "?a \<noteq> ?b"
    using d n i' j' l by (simp add: nth_eq_iff_index_eq)
  have 3: "?a \<noteq> CHR ''J'' \<and> ?b \<noteq> CHR ''J''"
    using mem nj by metis
  have ix: "indexOf ?a grid = i'" "indexOf ?b grid = j'"
    using d i' j' l by (simp_all add: indexOf_nth)
  have 4: "playfairPair grid Decrypt ?a ?b = [a, b]"
    using mem inv ai bj by (simp add: playfairPair_def ix)
  from 1 2 3 4 show ?thesis by blast
qed

lemma filler_neq: "filler a \<noteq> a"
  by (simp add: filler_def)

lemma padOdd_Cons2: "padOdd (a # b # s) = a # b # padOdd s"
  by (cases s) (simp_all add: padOdd_def)

lemma distinctPairs_padOdd_insertFillers: "distinctPairs (padOdd (insertFillers s))"
proof (induction s rule: insertFillers.induct)
  case (1 a b rest)
  then show ?case
    using filler_neq [of a] by (auto simp: padOdd_Cons2)
qed (auto simp: padOdd_def filler_def)

lemma no_J_insertFillers: "CHR ''J'' \<notin> set s \<Longrightarrow> CHR ''J'' \<notin> set (insertFillers s)"
  by (induction s rule: insertFillers.induct) (auto simp: filler_def)

lemma no_J_padOdd: "CHR ''J'' \<notin> set s \<Longrightarrow> CHR ''J'' \<notin> set (padOdd s)"
  by (simp add: padOdd_def filler_def)

lemma no_J_mergeJ: "CHR ''J'' \<notin> set (map mergeJ s)"
  by (auto simp: mergeJ_def)

lemma no_J_prepare: "CHR ''J'' \<notin> set (prepare s)"
  unfolding prepare_def by (intro no_J_padOdd no_J_insertFillers no_J_mergeJ)

lemma distinctPairs_prepare: "distinctPairs (prepare s)"
  by (simp add: prepare_def distinctPairs_padOdd_insertFillers)

lemma map_mergeJ_id: "CHR ''J'' \<notin> set s \<Longrightarrow> map mergeJ s = s"
  by (induction s) (auto simp: mergeJ_def)

lemma distinctPairs_even: "distinctPairs s \<Longrightarrow> even (length s)"
  by (induction s rule: distinctPairs.induct) auto

lemma insertFillers_id: "distinctPairs s \<Longrightarrow> insertFillers s = s"
  by (induction s rule: distinctPairs.induct) auto

lemma prepare_id:
  assumes "distinctPairs s" and "CHR ''J'' \<notin> set s"
  shows "prepare s = s"
  using assms distinctPairs_even [OF assms(1)]
  by (simp add: prepare_def map_mergeJ_id insertFillers_id padOdd_def)

lemma playfairDigraphs_round_trip:
  assumes "validGrid grid"
  shows "distinctPairs s \<Longrightarrow> CHR ''J'' \<notin> set s \<Longrightarrow>
     distinctPairs (playfairDigraphs grid Encrypt s) \<and>
     CHR ''J'' \<notin> set (playfairDigraphs grid Encrypt s) \<and>
     playfairDigraphs grid Decrypt (playfairDigraphs grid Encrypt s) = s"
proof (induction s rule: distinctPairs.induct)
  case (1 a b rest)
  then have ab: "a \<noteq> b" and nj: "a \<noteq> CHR ''J''" "b \<noteq> CHR ''J''" by auto
  from playfairPair_round_trip [OF assms ab] nj obtain a' b' where
    e: "playfairPair grid Encrypt a b = [a', b']" and n: "a' \<noteq> b'"
    and j: "a' \<noteq> CHR ''J''" "b' \<noteq> CHR ''J''"
    and inv: "playfairPair grid Decrypt a' b' = [a, b]"
    by blast
  from 1 have IH: "distinctPairs (playfairDigraphs grid Encrypt rest)"
     "CHR ''J'' \<notin> set (playfairDigraphs grid Encrypt rest)"
     "playfairDigraphs grid Decrypt (playfairDigraphs grid Encrypt rest) = rest"
    by auto
  show ?case
    using e n j inv IH by simp
next
  case 2
  show ?case by simp
next
  case (3 a)
  then show ?case by simp
qed

lemma playfair_round_trip:
  assumes "validGrid grid"
  shows "playfairDigraphs grid Decrypt (prepare (playfairDigraphs grid Encrypt (prepare inputText))) = prepare inputText"
proof -
  note r = playfairDigraphs_round_trip [OF assms distinctPairs_prepare no_J_prepare, of inputText]
  from r have "prepare (playfairDigraphs grid Encrypt (prepare inputText)) =
                 playfairDigraphs grid Encrypt (prepare inputText)"
    by (intro prepare_id) simp_all
  with r show ?thesis by simp
qed

lemma letters_literal: "map letterAt [0 ..< 26] = ''ABCDEFGHIJKLMNOPQRSTUVWXYZ''"
  by code_simp

lemma isLetter_mem: 
  assumes "isLetter c"
  shows "c \<in> set ''ABCDEFGHIJKLMNOPQRSTUVWXYZ''"
proof -
  have "position c < 26" using position_less [OF assms] by (simp add: alphabetSize_def)
  then have "letterAt (position c) \<in> set (map letterAt [0 ..< 26])"
    by auto
  then show ?thesis
    unfolding letters_literal letterAt_position [OF assms] .
qed

lemma mergeJ_in_gridAlphabet: "isLetter c \<Longrightarrow> mergeJ c \<in> set gridAlphabet"
  using isLetter_mem [of c] by (auto simp: mergeJ_def gridAlphabet_def)

lemma distinct_gridAlphabet: "distinct gridAlphabet" and length_gridAlphabet: "length gridAlphabet = 25"
  and no_J_gridAlphabet: "CHR ''J'' \<notin> set gridAlphabet"
  by (simp_all add: gridAlphabet_def)

lemma validGrid_makeGrid: "validGrid (makeGrid key)"
proof -
  have s: "set (makeGrid key) = set gridAlphabet"
    using mergeJ_in_gridAlphabet by (auto simp: makeGrid_def dedup_def)
  have d: "distinct (makeGrid key)"
    by (simp add: makeGrid_def dedup_def)
  have "length (makeGrid key) = card (set (makeGrid key))"
    using d by (simp add: distinct_card)
  also have "\<dots> = length gridAlphabet"
    unfolding s using distinct_gridAlphabet by (simp add: distinct_card)
  finally have "length (makeGrid key) = 25"
    by (simp add: length_gridAlphabet)
  with s d no_J_gridAlphabet show ?thesis
    by (simp add: validGrid_def)
qed


subsection \<open>The round trip\<close>

lemma prepare_fixed_iff:
  "prepare inputText = inputText \<longleftrightarrow> distinctPairs inputText \<and> CHR ''J'' \<notin> set inputText"
proof
  assume "prepare inputText = inputText"
  with distinctPairs_prepare [of inputText] no_J_prepare [of inputText]
  show "distinctPairs inputText \<and> CHR ''J'' \<notin> set inputText" by simp
next
  assume "distinctPairs inputText \<and> CHR ''J'' \<notin> set inputText"
  then show "prepare inputText = inputText" by (simp add: prepare_id)
qed

text \<open>
  Claim C5, as amended. For a cipher that the factory constructs from a key, decrypting
  the encryption of a text gives the text back for Caesar and Vigenere, for every text.
  For Playfair it gives the prepared text: J read as I, a filler between the two equal
  letters of a pair, a filler at the end of a text of odd length. That is the text
  itself exactly when the text has no J and splits into pairs of different letters.
\<close>

theorem decrypt_encrypt:
  assumes "CipherFactory_makeCipher kind key = Inr (Some cipher)"
  shows "Cipher_applyCipher cipher (Cipher_applyCipher cipher inputText Encrypt) Decrypt =
           (if kind = Playfair then prepare inputText else inputText) \<and>
         (prepare inputText = inputText \<longleftrightarrow>
            distinctPairs inputText \<and> CHR ''J'' \<notin> set inputText)"
proof
  show "Cipher_applyCipher cipher (Cipher_applyCipher cipher inputText Encrypt) Decrypt =
           (if kind = Playfair then prepare inputText else inputText)"
  proof (cases kind)
    case Caesar
    with assms obtain k where "cipher = CaesarCipher k" and "k < alphabetSize"
      by (auto split: option.splits if_splits)
    with Caesar show ?thesis by (simp add: caesar_round_trip)
  next
    case Playfair
    with assms have "cipher = PlayfairCipher (makeGrid key)" by simp
    with Playfair show ?thesis
      by (simp add: playfairApply_def playfair_round_trip [OF validGrid_makeGrid])
  next
    case Vigenere
    with assms have "cipher = VigenereCipher key" and "key \<noteq> []" and "list_all isLetter key"
      by (auto split: if_splits)
    with Vigenere show ?thesis by (simp add: vigenere_round_trip)
  qed
  show "prepare inputText = inputText \<longleftrightarrow>
            distinctPairs inputText \<and> CHR ''J'' \<notin> set inputText"
    by (rule prepare_fixed_iff)
qed

theorem decrypt_encrypt_witness:
  "CipherFactory_makeCipher Playfair ''KEY'' = Inr (Some (PlayfairCipher ''KEYABCDFGHILMNOPQRSTUVWXZ'')) \<and>
   Cipher_applyCipher (PlayfairCipher ''KEYABCDFGHILMNOPQRSTUVWXZ'')
     (Cipher_applyCipher (PlayfairCipher ''KEYABCDFGHILMNOPQRSTUVWXZ'') ''HELLO'' Encrypt) Decrypt
     = ''HELXLO'' \<and>
   CipherFactory_makeCipher Vigenere ''KEY'' = Inr (Some (VigenereCipher ''KEY'')) \<and>
   Cipher_applyCipher (VigenereCipher ''KEY'')
     (Cipher_applyCipher (VigenereCipher ''KEY'') ''HELLOWORLD'' Encrypt) Decrypt = ''HELLOWORLD''"
proof -
  have p: "CipherFactory_makeCipher Playfair ''KEY'' = Inr (Some (PlayfairCipher ''KEYABCDFGHILMNOPQRSTUVWXZ''))"
    by code_simp
  have v: "CipherFactory_makeCipher Vigenere ''KEY'' = Inr (Some (VigenereCipher ''KEY''))"
    by code_simp
  have h: "prepare ''HELLO'' = ''HELXLO''"
    by code_simp
  from decrypt_encrypt [OF p, of "''HELLO''"]
  have 1: "Cipher_applyCipher (PlayfairCipher ''KEYABCDFGHILMNOPQRSTUVWXZ'')
     (Cipher_applyCipher (PlayfairCipher ''KEYABCDFGHILMNOPQRSTUVWXZ'') ''HELLO'' Encrypt) Decrypt
     = ''HELXLO''"
    unfolding h by simp
  from decrypt_encrypt [OF v, of "''HELLOWORLD''"]
  have 2: "Cipher_applyCipher (VigenereCipher ''KEY'')
     (Cipher_applyCipher (VigenereCipher ''KEY'') ''HELLOWORLD'' Encrypt) Decrypt = ''HELLOWORLD''"
    by simp
  from p v 1 2 show ?thesis by (intro conjI)
qed

text \<open>
  The claim as stated fails for Playfair: BALLOON, a text of letters, comes back as
  BALXLOON.
\<close>

theorem playfair_decrypt_encrypt_counterexample:
  "CipherFactory_makeCipher Playfair ''KEY'' =
     Inr (Some (PlayfairCipher ''KEYABCDFGHILMNOPQRSTUVWXZ'')) \<and>
   list_all isLetter ''BALLOON'' \<and>
   Cipher_applyCipher (PlayfairCipher ''KEYABCDFGHILMNOPQRSTUVWXZ'')
     (Cipher_applyCipher (PlayfairCipher ''KEYABCDFGHILMNOPQRSTUVWXZ'') ''BALLOON'' Encrypt)
     Decrypt = ''BALXLOON'' \<and>
   Cipher_applyCipher (PlayfairCipher ''KEYABCDFGHILMNOPQRSTUVWXZ'')
     (Cipher_applyCipher (PlayfairCipher ''KEYABCDFGHILMNOPQRSTUVWXZ'') ''BALLOON'' Encrypt)
     Decrypt \<noteq> ''BALLOON''"
  by code_simp

section \<open>Failure of the construction\<close>

lemma constructLoop_InvalidKey:
  assumes "i \<in> set indices"
    and "\<forall>j \<in> set indices. j < length keys"
    and "makeCipher (types ! i) (keys ! i) = Inl (InvalidKey what)"
    and "\<forall>j \<in> set indices. \<forall>e. makeCipher (types ! j) (keys ! j) = Inl e \<longrightarrow> (\<exists>w. e = InvalidKey w)"
  shows "\<exists>line. constructLoop makeCipher types keys indices ciphers = ReturnOne line"
  using assms
proof (induction indices arbitrary: ciphers)
  case Nil
  then show ?case by simp
next
  case (Cons j rest)
  show ?case
  proof (cases "makeCipher (types ! j) (keys ! j)")
    case (Inl e)
    with Cons.prems(4) obtain w where "e = InvalidKey w" by auto
    with Inl Cons.prems(2) show ?thesis by simp
  next
    case (Inr made)
    show ?thesis
    proof (cases made)
      case None
      with Inr Cons.prems(2) show ?thesis by simp
    next
      case (Some c)
      with Inr Cons.prems(3) have "i \<noteq> j" by auto
      with Cons.prems(1) have "i \<in> set rest" by simp
      have "\<exists>line. constructLoop makeCipher types keys rest (ciphers @ [c]) = ReturnOne line"
        by (rule Cons.IH) (use \<open>i \<in> set rest\<close> Cons.prems in auto)
      with Inr Some Cons.prems(2) show ?thesis by simp
    qed
  qed
qed

lemma constructLoop_not_InvalidKey:
  "constructLoop makeCipher types keys indices ciphers \<noteq> Uncaught (InvalidKey m)"
proof (induction indices arbitrary: ciphers)
  case Nil
  show ?case by simp
next
  case (Cons j rest)
  then show ?case
    by (auto split: sum.splits exn.splits option.splits)
qed

lemma applyStage_not_InvalidKey:
  "applyStage applyCipher settings ciphers cipher cipherText \<noteq> Inl (InvalidKey m)"
  by (cases ciphers) (simp_all add: applyStage_def parallelStage_front parallelStage_empty)

lemma runStages_not_InvalidKey:
  "runStages applyCipher settings ciphers stages acc \<noteq> Inl (InvalidKey m)"
proof (induction stages arbitrary: acc)
  case Nil
  show ?case by simp
next
  case (Cons cipher rest)
  obtain cipherText calls where acc: "acc = (cipherText, calls)" by (cases acc)
  show ?case
    unfolding acc using Cons.IH applyStage_not_InvalidKey [of applyCipher settings ciphers cipher cipherText m]
    by (auto split: sum.splits)
qed

lemma runCiphers_not_InvalidKey:
  "runCiphers makeCipher applyCipher outputGood settings cipherText \<noteq> Inl (InvalidKey m)"
  using constructLoop_not_InvalidKey [of makeCipher "cipherType settings" "cipherKey settings" _ "[]" m]
    runStages_not_InvalidKey [of applyCipher settings _ _ _ m]
  by (auto simp: runCiphers_def constructCiphers_def runPipeline_def split: attempt.splits sum.splits)

lemma makeCipher_throws_InvalidKey:
  "CipherFactory_makeCipher kind key = Inl e \<Longrightarrow> \<exists>w. e = InvalidKey w"
  by (cases kind) (auto split: option.splits if_splits)

text \<open>
  With transforms that return, the driver with a throwing transform is the driver above;
  the ciphers that the factory constructs are in a valid state, so their checked
  transforms return.
\<close>

lemma chunkTaskThrowing_returning:
  assumes "\<forall>c \<in> set ciphers. \<forall>t m. applyThrowing c t m = Inr (applyCipher c t m)"
  shows "chunkTaskThrowing applyThrowing ciphers cipherText mode i =
           chunkTask applyCipher ciphers cipherText mode i"
  using assms
  by (cases ciphers) (auto simp: chunkTaskThrowing_def chunkTask_def split: sum.splits)

lemma applyStageThrowing_returning:
  assumes "\<forall>c \<in> set ciphers. \<forall>t m. applyThrowing c t m = Inr (applyCipher c t m)"
    and "cipher \<in> set ciphers"
  shows "applyStageThrowing applyThrowing settings ciphers cipher cipherText =
           applyStage applyCipher settings ciphers cipher cipherText"
proof -
  have "chunkTaskThrowing applyThrowing ciphers cipherText mode =
          chunkTask applyCipher ciphers cipherText mode" for mode
    by (rule ext) (rule chunkTaskThrowing_returning [OF assms(1)])
  then show ?thesis
    using assms by (simp add: applyStageThrowing_def applyStage_def parallelStageThrowing_def
        parallelStage_def)
qed

lemma runStagesThrowing_returning:
  assumes "\<forall>c \<in> set ciphers. \<forall>t m. applyThrowing c t m = Inr (applyCipher c t m)"
    and "set stages \<subseteq> set ciphers"
  shows "runStagesThrowing applyThrowing settings ciphers stages acc =
           runStages applyCipher settings ciphers stages acc"
  using assms(2)
proof (induction stages arbitrary: acc)
  case Nil
  show ?case by simp
next
  case (Cons cipher rest)
  obtain cipherText calls where acc: "acc = (cipherText, calls)" by (cases acc)
  from Cons.prems have "cipher \<in> set ciphers" and "set rest \<subseteq> set ciphers" by simp_all
  then show ?case
    unfolding acc
    by (simp add: applyStageThrowing_returning [OF assms(1)] Cons.IH split: sum.splits)
qed

lemma runPipelineThrowing_returning:
  assumes "\<forall>c \<in> set ciphers. \<forall>t m. applyThrowing c t m = Inr (applyCipher c t m)"
  shows "runPipelineThrowing applyThrowing settings ciphers cipherText =
           runPipeline applyCipher settings ciphers cipherText"
proof -
  have "\<forall>c \<in> set (orderCiphers settings ciphers). \<forall>t m. applyThrowing c t m = Inr (applyCipher c t m)"
    using assms by (simp add: orderCiphers_def)
  then show ?thesis
    unfolding runPipelineThrowing_def runPipeline_def
    by (rule runStagesThrowing_returning) simp
qed

lemma constructLoop_all:
  assumes "\<And>kind key c. makeCipher kind key = Inr (Some c) \<Longrightarrow> P c"
  shows "\<forall>c \<in> set ciphers. P c \<Longrightarrow>
         constructLoop makeCipher types keys indices ciphers = Completed made \<Longrightarrow>
         \<forall>c \<in> set made. P c"
proof (induction indices arbitrary: ciphers)
  case Nil
  then show ?case by simp
next
  case (Cons j rest)
  from Cons.prems(2) obtain c where m: "makeCipher (types ! j) (keys ! j) = Inr (Some c)"
    and r: "constructLoop makeCipher types keys rest (ciphers @ [c]) = Completed made"
    by (auto split: if_splits sum.splits exn.splits option.splits)
  from assms [OF m] Cons.prems(1) have "\<forall>x \<in> set (ciphers @ [c]). P x" by simp
  from Cons.IH [OF this r] show ?case .
qed

lemma makeCipher_validState:
  "CipherFactory_makeCipher kind key = Inr (Some cipher) \<Longrightarrow> validState cipher"
  by (cases kind) (auto simp: validGrid_makeGrid split: option.splits if_splits)

lemma makeCipher_validKey:
  "validKey kind key \<Longrightarrow> \<exists>cipher. CipherFactory_makeCipher kind key = Inr (Some cipher)"
  by (cases kind) (auto simp: validKey_def split: option.splits)

lemma makeCipher_invalidKey:
  "\<not> validKey kind key \<Longrightarrow> \<exists>what. CipherFactory_makeCipher kind key = Inl (InvalidKey what)"
  by (cases kind) (auto simp: validKey_def split: option.splits)

lemma checked_of_constructed:
  "CipherFactory_makeCipher kind key = Inr (Some cipher) \<Longrightarrow>
     Cipher_applyCipher_checked cipher inputText mode = Inr (Cipher_applyCipher cipher inputText mode)"
  by (simp add: Cipher_applyCipher_checked_def makeCipher_validState)

lemma constructCiphers_validState:
  assumes "constructCiphers CipherFactory_makeCipher settings = Completed ciphers"
  shows "\<forall>c \<in> set ciphers. validState c"
proof -
  have e: "\<forall>c \<in> set ([] :: Cipher list). validState c" by simp
  show ?thesis
    by (rule constructLoop_all [where P = validState, OF makeCipher_validState e
          assms [unfolded constructCiphers_def]])
qed

lemma runCiphersThrowing_factory:
  "runCiphersThrowing CipherFactory_makeCipher Cipher_applyCipher_checked outputGood settings cipherText =
     runCiphers CipherFactory_makeCipher Cipher_applyCipher outputGood settings cipherText"
proof (cases "constructCiphers CipherFactory_makeCipher settings")
  case (Uncaught e)
  then show ?thesis by (simp add: runCiphersThrowing_def runCiphers_def)
next
  case (ReturnOne line)
  then show ?thesis by (simp add: runCiphersThrowing_def runCiphers_def)
next
  case (Completed ciphers)
  from constructCiphers_validState [OF this]
  have "\<forall>c \<in> set ciphers. \<forall>t m. Cipher_applyCipher_checked c t m = Inr (Cipher_applyCipher c t m)"
    by (simp add: Cipher_applyCipher_checked_def)
  then have p: "runPipelineThrowing Cipher_applyCipher_checked settings ciphers cipherText =
           runPipeline Cipher_applyCipher settings ciphers cipherText"
    by (rule runPipelineThrowing_returning)
  show ?thesis
    by (simp add: runCiphersThrowing_def runCiphers_def Completed p)
qed

lemma runCiphersThrowing_aborts:
  assumes "length (cipherType settings) \<le> length (cipherKey settings)"
    and "i < length (cipherType settings)"
    and "makeCipher (cipherType settings ! i) (cipherKey settings ! i) = Inl (InvalidKey what)"
    and "\<forall>j < length (cipherType settings). \<forall>e.
           makeCipher (cipherType settings ! j) (cipherKey settings ! j) = Inl e
             \<longrightarrow> (\<exists>w. e = InvalidKey w)"
  shows "\<exists>line. runCiphersThrowing makeCipher applyCipher outputGood settings cipherText =
            Inr \<lparr>exitCode = 1, errorLines = [line], outputText = None, applied = []\<rparr>"
proof -
  have "\<exists>line. constructLoop makeCipher (cipherType settings) (cipherKey settings)
                 [0 ..< length (cipherType settings)] [] = ReturnOne line"
    using assms by (intro constructLoop_InvalidKey [where i = i and what = what]) auto
  then show ?thesis
    by (auto simp: runCiphersThrowing_def constructCiphers_def)
qed

text \<open>
  An exception of a transform does leave the run: a factory that hands out a Vigenere
  cipher with an empty key, against the specification, makes the checked transform
  throw, and the run ends with that exception uncaught.
\<close>

lemma transform_exception_leaves_main:
  "runCiphersThrowing (\<lambda>kind key. Inr (Some (VigenereCipher key))) Cipher_applyCipher_checked True
     (settingsFor [Vigenere] [''''] Encrypt) ''HELLO'' = Inl (InvalidKey ''cipher state is not valid'')"
  by code_simp

text \<open>
  Claim C6. With the factory and the transforms of the specification:
  a valid key gives a cipher in a valid state and a key that is not valid makes the
  factory throw \<open>InvalidKey\<close>; the transform of a cipher that the factory constructed
  does not throw; no run ends with \<open>InvalidKey\<close> thrown by a transform or left uncaught;
  and when one of the keys of a run is not valid, the run returns 1 with one line on
  the error stream, without any call of a transform and without output.
\<close>

theorem invalid_key_rejected_at_construction:
  "(validKey kind key \<longrightarrow>
      (\<exists>constructed. CipherFactory_makeCipher kind key = Inr (Some constructed) \<and>
                      validState constructed)) \<and>
   (\<not> validKey kind key \<longrightarrow>
      (\<exists>what. CipherFactory_makeCipher kind key = Inl (InvalidKey what))) \<and>
   (CipherFactory_makeCipher kind key = Inr (Some cipher) \<longrightarrow>
      Cipher_applyCipher_checked cipher inputText mode =
        Inr (Cipher_applyCipher cipher inputText mode)) \<and>
   (\<forall>what. runCiphersThrowing CipherFactory_makeCipher Cipher_applyCipher_checked outputGood
             settings cipherText \<noteq> Inl (InvalidKey what)) \<and>
   (length (cipherType settings) \<le> length (cipherKey settings) \<and>
    i < length (cipherType settings) \<and>
    \<not> validKey (cipherType settings ! i) (cipherKey settings ! i) \<longrightarrow>
      (\<exists>line. runCiphersThrowing CipherFactory_makeCipher Cipher_applyCipher_checked outputGood
                settings cipherText =
              Inr \<lparr>exitCode = 1, errorLines = [line], outputText = None, applied = []\<rparr>))"
proof (intro conjI impI allI)
  assume "validKey kind key"
  from makeCipher_validKey [OF this] obtain c where "CipherFactory_makeCipher kind key = Inr (Some c)" ..
  with makeCipher_validState [OF this]
  show "\<exists>constructed. CipherFactory_makeCipher kind key = Inr (Some constructed) \<and> validState constructed"
    by blast
next
  assume "\<not> validKey kind key"
  then show "\<exists>what. CipherFactory_makeCipher kind key = Inl (InvalidKey what)"
    by (rule makeCipher_invalidKey)
next
  assume "CipherFactory_makeCipher kind key = Inr (Some cipher)"
  then show "Cipher_applyCipher_checked cipher inputText mode = Inr (Cipher_applyCipher cipher inputText mode)"
    by (rule checked_of_constructed)
next
  fix what
  show "runCiphersThrowing CipherFactory_makeCipher Cipher_applyCipher_checked outputGood
             settings cipherText \<noteq> Inl (InvalidKey what)"
    unfolding runCiphersThrowing_factory by (rule runCiphers_not_InvalidKey)
next
  assume a: "length (cipherType settings) \<le> length (cipherKey settings) \<and>
    i < length (cipherType settings) \<and>
    \<not> validKey (cipherType settings ! i) (cipherKey settings ! i)"
  then obtain what where
    w: "CipherFactory_makeCipher (cipherType settings ! i) (cipherKey settings ! i) = Inl (InvalidKey what)"
    using makeCipher_invalidKey by blast
  have t: "\<forall>j < length (cipherType settings). \<forall>e.
           CipherFactory_makeCipher (cipherType settings ! j) (cipherKey settings ! j) = Inl e
             \<longrightarrow> (\<exists>w. e = InvalidKey w)"
    by (simp add: makeCipher_throws_InvalidKey)
  from a show "\<exists>line. runCiphersThrowing CipherFactory_makeCipher Cipher_applyCipher_checked outputGood
                settings cipherText =
              Inr \<lparr>exitCode = 1, errorLines = [line], outputText = None, applied = []\<rparr>"
    by (intro runCiphersThrowing_aborts [OF _ _ w t]) simp_all
qed


theorem invalid_key_rejected_at_construction_witness:
  "validKey Caesar ''3'' \<and>
   CipherFactory_makeCipher Caesar ''3'' = Inr (Some (CaesarCipher 3)) \<and>
   validState (CaesarCipher 3) \<and>
   Cipher_applyCipher_checked (CaesarCipher 3) ''HELLO'' Encrypt = Inr ''KHOOR'' \<and>
   \<not> validKey Vigenere [] \<and>
   CipherFactory_makeCipher Vigenere [] =
     Inl (InvalidKey ''Vigenere cipher key must be a non-empty string of letters'') \<and>
   runCiphersThrowing CipherFactory_makeCipher Cipher_applyCipher_checked True
     (settingsFor [Caesar, Vigenere] [''3'', []] Encrypt) ''HELLO'' =
   Inr \<lparr>exitCode = 1,
        errorLines = [''[error] Invalid Key: Vigenere cipher key must be a non-empty string of letters''],
        outputText = None, applied = []\<rparr>"
proof -
  let ?s = "settingsFor [Caesar, Vigenere] [''3'', []] Encrypt"
  note T = invalid_key_rejected_at_construction [where kind = Caesar and key = "''3''"
      and cipher = "CaesarCipher 3" and inputText = "''HELLO''" and mode = Encrypt
      and outputGood = True and settings = ?s and cipherText = "''HELLO''" and i = 1]
  note U = invalid_key_rejected_at_construction [where kind = Vigenere and key = "[]"
      and cipher = "CaesarCipher 3" and inputText = "''HELLO''" and mode = Encrypt
      and outputGood = True and settings = ?s and cipherText = "''HELLO''" and i = 1]
  have v: "validKey Caesar ''3''"
    by code_simp
  have m: "CipherFactory_makeCipher Caesar ''3'' = Inr (Some (CaesarCipher 3))"
    by code_simp
  from T v obtain constructed where
    "CipherFactory_makeCipher Caesar ''3'' = Inr (Some constructed)" and "validState constructed"
    by blast
  with m have s: "validState (CaesarCipher 3)"
    by simp
  have k: "Cipher_applyCipher (CaesarCipher 3) ''HELLO'' Encrypt = ''KHOOR''"
    by code_simp
  from T m have "Cipher_applyCipher_checked (CaesarCipher 3) ''HELLO'' Encrypt =
      Inr (Cipher_applyCipher (CaesarCipher 3) ''HELLO'' Encrypt)"
    by blast
  then have c: "Cipher_applyCipher_checked (CaesarCipher 3) ''HELLO'' Encrypt = Inr ''KHOOR''"
    unfolding k .
  have n: "\<not> validKey Vigenere []"
    by (simp add: validKey_def)
  have f: "CipherFactory_makeCipher Vigenere [] =
     Inl (InvalidKey ''Vigenere cipher key must be a non-empty string of letters'')"
    by simp
  from U n obtain what where "CipherFactory_makeCipher Vigenere [] = Inl (InvalidKey what)"
    by blast
  have h: "length (cipherType ?s) \<le> length (cipherKey ?s) \<and> 1 < length (cipherType ?s) \<and>
      \<not> validKey (cipherType ?s ! 1) (cipherKey ?s ! 1)"
    using n by (simp add: settingsFor_def)
  from T h obtain line where
    r: "runCiphersThrowing CipherFactory_makeCipher Cipher_applyCipher_checked True ?s ''HELLO'' =
          Inr \<lparr>exitCode = 1, errorLines = [line], outputText = None, applied = []\<rparr>"
    by blast
  have e: "runCiphersThrowing CipherFactory_makeCipher Cipher_applyCipher_checked True ?s ''HELLO'' =
   Inr \<lparr>exitCode = 1,
        errorLines = [''[error] Invalid Key: Vigenere cipher key must be a non-empty string of letters''],
        outputText = None, applied = []\<rparr>"
    by code_simp
  from r e have "line = ''[error] Invalid Key: Vigenere cipher key must be a non-empty string of letters''"
    by simp
  with v m s c n f r show ?thesis by simp
qed

end
